theory Spec2Isabelle
  imports Main "HOL-Library.Word"
begin

unbundle bit_operations_syntax


section \<open>Python strings\<close>

text \<open>
  A Python \<open>str\<close> is modelled as a HOL \<open>string\<close>, one \<open>char\<close> per character. This is exact
  for ASCII text; for the URL functions a non-ASCII character stands as its UTF-8 bytes
  (which is what \<open>quote\<close>, \<open>unquote\<close> and \<open>md5(s.encode("utf-8"))\<close> work on).
\<close>

definition py_isspace :: "char \<Rightarrow> bool" where
  \<comment> \<open>\<open>str.isspace()\<close> and the regular expression class \<open>\s\<close>, on ASCII:
      tab, line feed, vertical tab, form feed, carriage return, the separators 0x1C..0x1F, space.\<close>
  "py_isspace c = (of_char c \<in> {9::nat, 10, 11, 12, 13, 28, 29, 30, 31, 32})"

definition lstrip :: "string \<Rightarrow> string" where
  "lstrip s = dropWhile py_isspace s"

definition rstrip :: "string \<Rightarrow> string" where
  "rstrip s = rev (dropWhile py_isspace (rev s))"

definition strip :: "string \<Rightarrow> string" where
  \<comment> \<open>\<open>s.strip()\<close>\<close>
  "strip s = rstrip (lstrip s)"

fun rfind_aux :: "char \<Rightarrow> string \<Rightarrow> int \<Rightarrow> int \<Rightarrow> int" where
  "rfind_aux c [] i best = best"
| "rfind_aux c (x # xs) i best = rfind_aux c xs (i + 1) (if x = c then i else best)"

definition rfind :: "char \<Rightarrow> string \<Rightarrow> int" where
  \<comment> \<open>\<open>s.rfind(c)\<close>: the highest index of \<open>c\<close> in \<open>s\<close>, or \<open>-1\<close>\<close>
  "rfind c s = rfind_aux c s 0 (- 1)"

fun join :: "string \<Rightarrow> string list \<Rightarrow> string" where
  \<comment> \<open>\<open>sep.join(xs)\<close>\<close>
  "join sep [] = []"
| "join sep [x] = x"
| "join sep (x # y # ys) = x @ sep @ join sep (y # ys)"

section \<open>The PDF builder: paragraphs and chunks\<close>

text \<open>
  \<open>re.split(r"\n\s*\n", s)\<close>. A match starts at a line feed, runs over the whitespace
  after it and ends at the last line feed of that run (the greedy \<open>\s*\<close> backtracks to
  it); a line feed whose whitespace run has no second line feed matches nothing.
\<close>

fun last_newline :: "string \<Rightarrow> nat \<Rightarrow> nat option \<Rightarrow> nat option" where
  \<comment> \<open>the index, counted from \<open>i\<close>, of the last line feed of the leading whitespace run\<close>
  "last_newline [] i best = best"
| "last_newline (x # xs) i best =
     (if py_isspace x then last_newline xs (Suc i) (if x = CHR 0x0A then Some i else best)
      else best)"

function re_split_blank :: "string \<Rightarrow> string \<Rightarrow> string list" where
  "re_split_blank cur [] = [cur]"
| "re_split_blank cur (c # cs) =
     (if c = CHR 0x0A then
        (case last_newline cs 0 None of
           None \<Rightarrow> re_split_blank (cur @ [c]) cs
         | Some j \<Rightarrow> cur # re_split_blank [] (drop (Suc j) cs))
      else re_split_blank (cur @ [c]) cs)"
  by pat_completeness auto
termination
  by (relation "measure (\<lambda>(cur, s). length s)") auto

definition blank_at :: "string \<Rightarrow> nat \<Rightarrow> bool" where
  \<comment> \<open>the pattern \<open>\n\s*\n\<close> matches at index \<open>k\<close> of \<open>s\<close>: a line feed there, and another one in
      the whitespace that follows it\<close>
  "blank_at s k =
     (k < length s \<and> s ! k = CHR 0x0A
      \<and> CHR 0x0A \<in> set (takeWhile py_isspace (drop (Suc k) s)))"

definition CHUNK :: nat where
  "CHUNK = 1600"

definition chunk_step :: "string \<Rightarrow> string \<times> string" where
  \<comment> \<open>one pass through the body of the \<open>while para:\<close> loop: the piece emitted and the new \<open>para\<close>\<close>
  "chunk_step para =
     (let chunk = take CHUNK para;
          cut = rfind CHR '' '' chunk
      in if cut = - 1 \<or> length para \<le> CHUNK then (para, [])
         else (take (nat cut) para, drop (nat (cut + 1)) para))"

partial_function (option) chunk_while :: "string \<Rightarrow> string list \<Rightarrow> string list option" where
  \<comment> \<open>the \<open>while para:\<close> loop; \<open>pieces\<close> are the paragraphs appended to the story so far\<close>
  "chunk_while para pieces =
     (if para = [] then Some pieces
      else case chunk_step para of (piece, rest) \<Rightarrow> chunk_while rest (pieces @ [piece]))"

declare chunk_while.simps [code]

definition split_paragraphs :: "string \<Rightarrow> string list" where
  \<comment> \<open>\<open>paragraphs = re.split(r"\n\s*\n", raw.strip()); if len(paragraphs) < 2: paragraphs = [raw]\<close>\<close>
  "split_paragraphs raw =
     (let paragraphs = re_split_blank [] (strip raw)
      in if length paragraphs < 2 then [raw] else paragraphs)"

fun chunk_paragraphs :: "string list \<Rightarrow> string list \<Rightarrow> string list option" where
  \<comment> \<open>\<open>for para in paragraphs: para = para.strip(); if not para: continue; while para: ...\<close>\<close>
  "chunk_paragraphs [] pieces = Some pieces"
| "chunk_paragraphs (p # ps) pieces =
     (let para = strip p
      in if para = [] then chunk_paragraphs ps pieces
         else case chunk_while para pieces of
                None \<Rightarrow> None
              | Some pieces' \<Rightarrow> chunk_paragraphs ps pieces')"

datatype block = Heading1 string | Heading2 string | Paragraph string | Spacer nat

record payload =
  p_url :: string
  p_title :: string
  p_meta :: string
  p_text :: string
  p_outgoing_links :: "string list"

definition make_pdf_story :: "payload \<Rightarrow> block list option" where
  \<comment> \<open>the \<open>story\<close> that \<open>make_pdf\<close> hands to the layout engine; spacers in hundredths of an inch.
      \<open>None\<close>: the chunking loop does not return.\<close>
  "make_pdf_story pl =
     (let story = [Heading1 (if p_title pl = [] then ''(No title)'' else p_title pl),
                   Paragraph (p_url pl), Spacer 15, Spacer 10]
      in if p_text pl = [] then Some story
         else case chunk_paragraphs (split_paragraphs (p_text pl)) [] of
                None \<Rightarrow> None
              | Some pieces \<Rightarrow>
                  Some (story @ [Heading2 ''Page Text'']
                        @ concat (map (\<lambda>piece. [Paragraph piece, Spacer 5]) pieces)))"

section \<open>The standard library's URL functions\<close>

text \<open>
  \<open>urllib.parse\<close> for \<open>str\<close> arguments and the default parameters the crawler uses. The
  repository names no interpreter, and the module differs between releases in three places
  the crawler reaches: the list \<open>uses_netloc\<close>, the check of a bracketed host in \<open>urlsplit\<close>,
  and the condition under which \<open>urlunsplit\<close> writes \<open>//\<close>. The model follows the text of two
  releases, CPython 3.11.10 and CPython 3.12.3, and the field \<open>release\<close> of \<open>pylib\<close> says which.
  \<open>urlsplit\<close> raises \<open>ValueError\<close> on some network locations; the model returns \<open>None\<close>
  there. Two of its checks consult other parts of the library (\<open>ipaddress\<close> for a bracketed
  host, \<open>unicodedata\<close> for a non-ASCII network location): they are two more fields of
  \<open>pylib\<close>, and every result below holds whatever they answer. The last field is the text
  of the exception.
\<close>

datatype release = CPython_3_11_10 | CPython_3_12_3

record pylib =
  release :: release
  bracketed_host_ok :: "string \<Rightarrow> bool"  \<comment> \<open>\<open>_check_bracketed_host(h)\<close> returns\<close>
  nfkc_ok :: "string \<Rightarrow> bool"  \<comment> \<open>\<open>_checknetloc(netloc)\<close> returns, for a non-ASCII netloc\<close>
  value_error_text :: "string \<Rightarrow> string"  \<comment> \<open>\<open>str(e)\<close> of the \<open>ValueError\<close> raised for a URL\<close>

definition strict_lib :: pylib where
  \<comment> \<open>release 3.11.10, with every bracketed host and every non-ASCII network location rejected\<close>
  "strict_lib = \<lparr>release = CPython_3_11_10, bracketed_host_ok = (\<lambda>h. False),
                  nfkc_ok = (\<lambda>n. False), value_error_text = (\<lambda>u. ''Invalid IPv6 URL'')\<rparr>"

definition strict_lib_3_12 :: pylib where
  \<comment> \<open>the same for release 3.12.3\<close>
  "strict_lib_3_12 = strict_lib\<lparr>release := CPython_3_12_3\<rparr>"

definition py_ord :: "char \<Rightarrow> nat" where
  \<comment> \<open>\<open>ord(c)\<close>\<close>
  "py_ord c = of_char c"

definition is_upper :: "char \<Rightarrow> bool" where
  "is_upper c = (65 \<le> py_ord c \<and> py_ord c \<le> 90)"

definition is_lower :: "char \<Rightarrow> bool" where
  "is_lower c = (97 \<le> py_ord c \<and> py_ord c \<le> 122)"

definition is_digit :: "char \<Rightarrow> bool" where
  "is_digit c = (48 \<le> py_ord c \<and> py_ord c \<le> 57)"

definition is_alnum :: "char \<Rightarrow> bool" where
  \<comment> \<open>the class \<open>[a-zA-Z0-9]\<close>\<close>
  "is_alnum c = (is_upper c \<or> is_lower c \<or> is_digit c)"

definition is_ascii :: "char \<Rightarrow> bool" where
  "is_ascii c = (py_ord c < 128)"

definition lower_char :: "char \<Rightarrow> char" where
  "lower_char c = (if is_upper c then char_of (py_ord c + 32) else c)"

definition py_lower :: "string \<Rightarrow> string" where
  \<comment> \<open>\<open>s.lower()\<close>, on ASCII letters\<close>
  "py_lower s = map lower_char s"

definition startswith :: "string \<Rightarrow> string \<Rightarrow> bool" where
  "startswith s pre = (take (length pre) s = pre)"

definition endswith :: "string \<Rightarrow> string \<Rightarrow> bool" where
  "endswith s suf = (length suf \<le> length s \<and> drop (length s - length suf) s = suf)"

definition partition :: "char \<Rightarrow> string \<Rightarrow> string \<times> bool \<times> string" where
  \<comment> \<open>\<open>s.partition(c)\<close>: the text before the first \<open>c\<close>, whether there is one, the text after it\<close>
  "partition c s =
     (takeWhile (\<lambda>x. x \<noteq> c) s, c \<in> set s, drop 1 (dropWhile (\<lambda>x. x \<noteq> c) s))"

definition rpartition :: "char \<Rightarrow> string \<Rightarrow> string \<times> bool \<times> string" where
  \<comment> \<open>\<open>s.rpartition(c)\<close>: the same at the last \<open>c\<close>; without one, all of \<open>s\<close> is the third part\<close>
  "rpartition c s =
     (if c \<in> set s
      then (rev (drop 1 (dropWhile (\<lambda>x. x \<noteq> c) (rev s))), True,
            rev (takeWhile (\<lambda>x. x \<noteq> c) (rev s)))
      else ([], False, s))"

fun split_on :: "char \<Rightarrow> string \<Rightarrow> string list" where
  \<comment> \<open>\<open>s.split(c)\<close>\<close>
  "split_on c [] = [[]]"
| "split_on c (x # xs) =
     (case split_on c xs of
        [] \<Rightarrow> [[x]]
      | p # ps \<Rightarrow> if x = c then [] # p # ps else (x # p) # ps)"

definition scheme_char :: "char \<Rightarrow> bool" where
  \<comment> \<open>\<open>c in scheme_chars\<close>\<close>
  "scheme_char c = (is_alnum c \<or> c = CHR ''+'' \<or> c = CHR ''-'' \<or> c = CHR ''.'')"

definition uses_netloc :: "pylib \<Rightarrow> string list" where
  \<comment> \<open>release 3.12.3 has one scheme more\<close>
  "uses_netloc L =
     ['''', ''ftp'', ''http'', ''gopher'', ''nntp'', ''telnet'',
      ''imap'', ''wais'', ''file'', ''mms'', ''https'', ''shttp'',
      ''snews'', ''prospero'', ''rtsp'', ''rtsps'', ''rtspu'', ''rsync'',
      ''svn'', ''svn+ssh'', ''sftp'', ''nfs'', ''git'', ''git+ssh'',
      ''ws'', ''wss'']
     @ (case release L of CPython_3_11_10 \<Rightarrow> [] | CPython_3_12_3 \<Rightarrow> [''itms-services''])"

definition uses_params :: "string list" where
  "uses_params = ['''', ''ftp'', ''hdl'', ''prospero'', ''http'', ''imap'',
                  ''https'', ''shttp'', ''rtsp'', ''rtsps'', ''rtspu'', ''sip'',
                  ''sips'', ''mms'', ''sftp'', ''tel'']"

record split_result =
  sp_scheme :: string
  sp_netloc :: string
  sp_path :: string
  sp_query :: string
  sp_fragment :: string

definition unsafe_byte :: "char \<Rightarrow> bool" where
  \<comment> \<open>\<open>_UNSAFE_URL_BYTES_TO_REMOVE\<close>: tab, carriage return, line feed\<close>
  "unsafe_byte c = (py_ord c = 9 \<or> py_ord c = 13 \<or> py_ord c = 10)"

definition c0_or_space :: "char \<Rightarrow> bool" where
  \<comment> \<open>\<open>_WHATWG_C0_CONTROL_OR_SPACE\<close>\<close>
  "c0_or_space c = (py_ord c \<le> 32)"

definition netloc_delim :: "char \<Rightarrow> bool" where
  "netloc_delim c = (c = CHR ''/'' \<or> c = CHR ''?'' \<or> c = CHR ''#'')"

definition has_scheme :: "string \<Rightarrow> bool" where
  \<comment> \<open>\<open>i = url.find(':')\<close>, \<open>i > 0\<close>, an ASCII letter first and scheme characters up to \<open>i\<close>\<close>
  "has_scheme url =
     (let pre = takeWhile (\<lambda>c. c \<noteq> CHR '':'') url
      in CHR '':'' \<in> set url \<and> pre \<noteq> [] \<and> (is_upper (hd pre) \<or> is_lower (hd pre))
         \<and> list_all scheme_char pre)"

definition check_bracketed_netloc :: "pylib \<Rightarrow> string \<Rightarrow> bool" where
  \<comment> \<open>\<open>_check_bracketed_netloc(netloc)\<close> of release 3.12.3 returns\<close>
  "check_bracketed_netloc L n =
     (let hostname_and_port = snd (snd (rpartition CHR ''@'' n));
          (before_bracket, have_open_br, bracketed) = partition CHR ''['' hostname_and_port
      in if have_open_br
         then before_bracket = []
              \<and> (let (host, _, port) = partition CHR '']'' bracketed
                  in (port = [] \<or> take 1 port = '':'') \<and> bracketed_host_ok L host)
         else bracketed_host_ok L (fst (partition CHR '':'' hostname_and_port)))"

definition netloc_accepted :: "pylib \<Rightarrow> string \<Rightarrow> bool" where
  \<comment> \<open>the checks of \<open>urlsplit\<close> on the network location of a URL that has \<open>//\<close>\<close>
  "netloc_accepted L n =
     ((CHR ''['' \<in> set n \<longleftrightarrow> CHR '']'' \<in> set n)
      \<and> (CHR ''['' \<in> set n \<and> CHR '']'' \<in> set n \<longrightarrow>
           (case release L of
              CPython_3_11_10 \<Rightarrow>
                bracketed_host_ok L (fst (partition CHR '']'' (snd (snd (partition CHR ''['' n)))))
            | CPython_3_12_3 \<Rightarrow> check_bracketed_netloc L n))
      \<and> (n = [] \<or> list_all is_ascii n \<or> nfkc_ok L n))"

definition urlsplit :: "pylib \<Rightarrow> string \<Rightarrow> split_result option" where
  "urlsplit L url0 =
     (let url1 = filter (\<lambda>c. \<not> unsafe_byte c) (dropWhile c0_or_space url0);
          pre = takeWhile (\<lambda>c. c \<noteq> CHR '':'') url1;
          sch = (if has_scheme url1 then py_lower pre else []);
          url2 = (if has_scheme url1 then drop (Suc (length pre)) url1 else url1);
          slashes = (take 2 url2 = ''//'');
          nl = (if slashes then takeWhile (\<lambda>c. \<not> netloc_delim c) (drop 2 url2) else []);
          url3 = (if slashes then dropWhile (\<lambda>c. \<not> netloc_delim c) (drop 2 url2) else url2);
          (url4, has_frag, frag) = partition CHR ''#'' url3;
          (url5, has_query, qry) = partition CHR ''?'' url4
      in if slashes \<and> \<not> netloc_accepted L nl then None
         else Some \<lparr>sp_scheme = sch, sp_netloc = nl, sp_path = url5, sp_query = qry, sp_fragment = frag\<rparr>)"

definition writes_slashes :: "pylib \<Rightarrow> split_result \<Rightarrow> bool" where
  \<comment> \<open>the first condition of \<open>urlunsplit\<close>. Release 3.11.10:
      \<open>netloc or (scheme and scheme in uses_netloc) or url[:2] == '//'\<close>; release 3.12.3:
      \<open>netloc or (scheme and scheme in uses_netloc and url[:2] != '//')\<close>.\<close>
  "writes_slashes L r =
     (case release L of
        CPython_3_11_10 \<Rightarrow>
          sp_netloc r \<noteq> [] \<or> (sp_scheme r \<noteq> [] \<and> sp_scheme r \<in> set (uses_netloc L))
          \<or> take 2 (sp_path r) = ''//''
      | CPython_3_12_3 \<Rightarrow>
          sp_netloc r \<noteq> []
          \<or> (sp_scheme r \<noteq> [] \<and> sp_scheme r \<in> set (uses_netloc L) \<and> take 2 (sp_path r) \<noteq> ''//''))"

definition urlunsplit :: "pylib \<Rightarrow> split_result \<Rightarrow> string" where
  "urlunsplit L r =
     (let url = sp_path r;
          url = (if writes_slashes L r
                 then ''//'' @ sp_netloc r @ (if url \<noteq> [] \<and> take 1 url \<noteq> ''/'' then ''/'' @ url else url)
                 else url);
          url = (if sp_scheme r \<noteq> [] then sp_scheme r @ '':'' @ url else url);
          url = (if sp_query r \<noteq> [] then url @ ''?'' @ sp_query r else url);
          url = (if sp_fragment r \<noteq> [] then url @ ''#'' @ sp_fragment r else url)
      in url)"

record parse_result =
  pr_scheme :: string
  pr_netloc :: string
  pr_path :: string
  pr_params :: string
  pr_query :: string
  pr_fragment :: string

definition splitparams :: "string \<Rightarrow> string \<times> string" where
  \<comment> \<open>\<open>_splitparams\<close>: the first \<open>;\<close> of the last path segment separates the parameters\<close>
  "splitparams url =
     (if CHR ''/'' \<in> set url
      then (let (dir, _, seg) = rpartition CHR ''/'' url
            in if CHR '';'' \<in> set seg
               then (dir @ ''/'' @ fst (partition CHR '';'' seg), snd (snd (partition CHR '';'' seg)))
               else (url, []))
      else (fst (partition CHR '';'' url), snd (snd (partition CHR '';'' url))))"

definition urlparse :: "pylib \<Rightarrow> string \<Rightarrow> parse_result option" where
  "urlparse L url =
     (case urlsplit L url of
        None \<Rightarrow> None
      | Some r \<Rightarrow>
          (let (p, params) = (if sp_scheme r \<in> set uses_params \<and> CHR '';'' \<in> set (sp_path r)
                              then splitparams (sp_path r) else (sp_path r, []))
           in Some \<lparr>pr_scheme = sp_scheme r, pr_netloc = sp_netloc r, pr_path = p, pr_params = params,
                     pr_query = sp_query r, pr_fragment = sp_fragment r\<rparr>))"

definition urlunparse :: "pylib \<Rightarrow> parse_result \<Rightarrow> string" where
  "urlunparse L r =
     urlunsplit L \<lparr>sp_scheme = pr_scheme r, sp_netloc = pr_netloc r,
                 sp_path = (if pr_params r \<noteq> [] then pr_path r @ '';'' @ pr_params r else pr_path r),
                 sp_query = pr_query r, sp_fragment = pr_fragment r\<rparr>"

definition urldefrag :: "pylib \<Rightarrow> string \<Rightarrow> (string \<times> string) option" where
  "urldefrag L url =
     (if CHR ''#'' \<in> set url
      then (case urlparse L url of
              None \<Rightarrow> None
            | Some r \<Rightarrow> Some (urlunparse L (r\<lparr>pr_fragment := []\<rparr>), pr_fragment r))
      else Some (url, []))"

definition hostname :: "string \<Rightarrow> string option" where
  \<comment> \<open>the \<open>hostname\<close> property of a result, from its \<open>netloc\<close>\<close>
  "hostname nl =
     (let hostinfo = snd (snd (rpartition CHR ''@'' nl));
          (_, have_open_br, bracketed) = partition CHR ''['' hostinfo;
          host = (if have_open_br then fst (partition CHR '']'' bracketed)
                  else fst (partition CHR '':'' hostinfo))
      in if host = [] then None
         else (let (h, percent, zone) = partition CHR ''%'' host
               in Some (py_lower h @ (if percent then ''%'' else []) @ zone)))"

subsection \<open>Query strings\<close>

definition always_safe :: "char \<Rightarrow> bool" where
  \<comment> \<open>\<open>_ALWAYS_SAFE\<close>\<close>
  "always_safe c = (is_alnum c \<or> c = CHR ''_'' \<or> c = CHR ''.'' \<or> c = CHR ''-'' \<or> c = CHR ''~'')"

definition hexdig :: "nat \<Rightarrow> char" where
  "hexdig n = ''0123456789ABCDEF'' ! (n mod 16)"

definition hexval :: "char \<Rightarrow> nat option" where
  \<comment> \<open>the value of a character of \<open>_hexdig\<close>, either case\<close>
  "hexval c =
     (if is_digit c then Some (py_ord c - 48)
      else if 65 \<le> py_ord c \<and> py_ord c \<le> 70 then Some (py_ord c - 55)
      else if 97 \<le> py_ord c \<and> py_ord c \<le> 102 then Some (py_ord c - 87)
      else None)"

definition quote_byte :: "char \<Rightarrow> string" where
  \<comment> \<open>one byte of the encoded string in \<open>quote_plus\<close>: kept when in \<open>_ALWAYS_SAFE\<close>, a space
      written \<open>+\<close>, any other as \<open>%XX\<close>\<close>
  "quote_byte c =
     (if always_safe c then [c]
      else if c = CHR '' '' then ''+''
      else [CHR ''%'', hexdig (py_ord c div 16), hexdig (py_ord c mod 16)])"

definition quote_bytes :: "string \<Rightarrow> string" where
  \<comment> \<open>\<open>quote_from_bytes\<close>, with the space written as \<open>+\<close>\<close>
  "quote_bytes s = concat (map quote_byte s)"

fun unquote_to_bytes :: "string \<Rightarrow> string" where
  \<comment> \<open>\<open>unquote_to_bytes\<close>: a \<open>%\<close> and two hexadecimal digits become one byte\<close>
  "unquote_to_bytes (c # h1 # h2 # rest) =
     (case (hexval h1, hexval h2) of
        (Some a, Some b) \<Rightarrow>
          if c = CHR ''%'' then char_of (16 * a + b) # unquote_to_bytes rest
          else c # unquote_to_bytes (h1 # h2 # rest)
      | _ \<Rightarrow> c # unquote_to_bytes (h1 # h2 # rest))"
| "unquote_to_bytes (c # cs) = c # unquote_to_bytes cs"
| "unquote_to_bytes [] = []"

subsection \<open>UTF-8\<close>

text \<open>
  The URL functions carry a \<open>str\<close> as the bytes of its UTF-8 encoding; a lone surrogate,
  which \<open>encode("utf-8")\<close> refuses, stands as the three bytes that the \<open>surrogatepass\<close> handler
  writes (\<open>ED A0..BF 80..BF\<close>). \<open>bytes.decode("utf-8", "replace")\<close> reads the longest prefix
  that can still begin a well-formed sequence and, where that is not a whole sequence, puts
  U+FFFD for it.
\<close>

definition continuation :: "char \<Rightarrow> bool" where
  "continuation d = (128 \<le> py_ord d \<and> py_ord d < 192)"

definition utf8_width :: "char \<Rightarrow> nat" where
  \<comment> \<open>the length of the sequence that a first byte announces; 0 for a byte that starts none\<close>
  "utf8_width c =
     (if py_ord c < 128 then 1 else if py_ord c < 194 then 0 else if py_ord c < 224 then 2
      else if py_ord c < 240 then 3 else if py_ord c < 245 then 4 else 0)"

definition second_ok :: "char \<Rightarrow> char \<Rightarrow> bool" where
  \<comment> \<open>\<open>d\<close> may follow the first byte \<open>c\<close>: no overlong form, no surrogate, nothing above U+10FFFF\<close>
  "second_ok c d =
     (continuation d
      \<and> (if py_ord c = 224 then 160 \<le> py_ord d
         else if py_ord c = 237 then py_ord d < 160
         else if py_ord c = 240 then 144 \<le> py_ord d
         else if py_ord c = 244 then py_ord d < 144
         else True))"

definition utf8_accepted :: "char \<Rightarrow> string \<Rightarrow> nat" where
  \<comment> \<open>how many of the bytes after the first byte \<open>c\<close> the decoder takes into its sequence\<close>
  "utf8_accepted c bs =
     (case bs of
        [] \<Rightarrow> 0
      | d # ds \<Rightarrow>
          if utf8_width c < 2 \<or> \<not> second_ok c d then 0
          else Suc (length (takeWhile continuation (take (utf8_width c - 2) ds))))"

function utf8_scan :: "string \<Rightarrow> (bool \<times> string) list" where
  \<comment> \<open>the parts the decoder reads, each with whether it is a well-formed sequence\<close>
  "utf8_scan [] = []"
| "utf8_scan (c # bs) =
     (utf8_width c \<noteq> 0 \<and> Suc (utf8_accepted c bs) = utf8_width c, c # take (utf8_accepted c bs) bs)
     # utf8_scan (drop (utf8_accepted c bs) bs)"
  by pat_completeness auto
termination
  by (relation "measure length") auto

definition utf8_replace :: "string \<Rightarrow> string" where
  \<comment> \<open>\<open>bs.decode("utf-8", "replace")\<close>\<close>
  "utf8_replace bs =
     concat (map (\<lambda>(ok, part). if ok then part else [CHR 0xEF, CHR 0xBF, CHR 0xBD]) (utf8_scan bs))"

definition encodable :: "string \<Rightarrow> bool" where
  \<comment> \<open>\<open>s.encode("utf-8")\<close> returns: \<open>s\<close> has no lone surrogate\<close>
  "encodable s = list_all fst (utf8_scan s)"

function unquote_parts :: "string \<Rightarrow> string" where
  \<comment> \<open>the loop of \<open>unquote\<close> over \<open>_asciire.split(string)\<close>: each run of ASCII characters is
      unquoted to bytes and decoded, the characters between the runs are kept\<close>
  "unquote_parts [] = []"
| "unquote_parts (c # cs) =
     (if is_ascii c
      then utf8_replace (unquote_to_bytes (c # takeWhile is_ascii cs))
           @ unquote_parts (dropWhile is_ascii cs)
      else c # unquote_parts cs)"
  by pat_completeness auto
termination
  by (relation "measure length") (auto simp: less_Suc_eq_le length_dropWhile_le)

definition unquote :: "string \<Rightarrow> string" where
  \<comment> \<open>\<open>unquote(string, encoding="utf-8", errors="replace")\<close>\<close>
  "unquote s = (if CHR ''%'' \<notin> set s then s else unquote_parts s)"

definition unquote_plus :: "string \<Rightarrow> string" where
  \<comment> \<open>\<open>unquote(s.replace('+', ' '))\<close>, as \<open>parse_qsl\<close> calls it\<close>
  "unquote_plus s = unquote (map (\<lambda>c. if c = CHR ''+'' then CHR '' '' else c) s)"

definition quote_plus :: "string \<Rightarrow> string option" where
  \<comment> \<open>\<open>quote_plus(s)\<close>; \<open>None\<close>: \<open>s.encode("utf-8")\<close> raises \<open>UnicodeEncodeError\<close>\<close>
  "quote_plus s = (if encodable s then Some (quote_bytes s) else None)"

definition parse_qsl :: "string \<Rightarrow> (string \<times> string) list" where
  \<comment> \<open>\<open>parse_qsl(qs, keep_blank_values=True)\<close>\<close>
  "parse_qsl qs =
     (if qs = [] then []
      else map (\<lambda>name_value.
                  (unquote_plus (fst (partition CHR ''='' name_value)),
                   unquote_plus (snd (snd (partition CHR ''='' name_value)))))
               (filter (\<lambda>name_value. name_value \<noteq> []) (split_on CHR ''&'' qs)))"

fun encode_pairs :: "(string \<times> string) list \<Rightarrow> string list option" where
  \<comment> \<open>the loop of \<open>urlencode\<close>: \<open>l.append(quote_plus(k) + '=' + quote_plus(v))\<close>\<close>
  "encode_pairs [] = Some []"
| "encode_pairs ((k, v) # q) =
     (case (quote_plus k, quote_plus v, encode_pairs q) of
        (Some a, Some b, Some l) \<Rightarrow> Some ((a @ ''='' @ b) # l)
      | _ \<Rightarrow> None)"

definition urlencode :: "(string \<times> string) list \<Rightarrow> string option" where
  \<comment> \<open>\<open>urlencode(q)\<close> for a list of pairs of \<open>str\<close>\<close>
  "urlencode q = map_option (join ''&'') (encode_pairs q)"

section \<open>The crawler's URL utilities\<close>

definition set_add :: "string \<Rightarrow> string list \<Rightarrow> string list" where
  \<comment> \<open>\<open>allow.add(x)\<close> on a set kept as a list without repetitions\<close>
  "set_add x allow = (if x \<in> set allow then allow else allow @ [x])"

definition same_site_allowed_domains :: "pylib \<Rightarrow> string \<Rightarrow> string list option" where
  "same_site_allowed_domains L base_url =
     (case urlparse L base_url of
        None \<Rightarrow> None
      | Some parsed \<Rightarrow>
          (let host = py_lower (case hostname (pr_netloc parsed) of None \<Rightarrow> [] | Some h \<Rightarrow> h)
           in if host = [] then Some []
              else (let allow = set_add host [];
                        naked = (if startswith host ''www.'' then drop 4 host else host);
                        allow = set_add naked allow;
                        allow = set_add (''www.'' @ naked) allow;
                        parts = split_on CHR ''.'' naked;
                        allow = (if length parts > 2
                                 then set_add (join ''.'' (drop (length parts - 2) parts)) allow
                                 else allow)
                    in Some allow)))"

definition tracking :: "string \<Rightarrow> bool" where
  \<comment> \<open>\<open>k.lower().startswith(("utm_", "fbclid", "gclid", "mc_eid"))\<close>. \<open>py_lower\<close> changes ASCII
      letters only, and that decides the same test: outside ASCII, \<open>lower()\<close> gives an ASCII
      letter only for U+0130 (\<open>i\<close>, then U+0307) and U+212A (\<open>k\<close>); no prefix has a \<open>k\<close> or ends
      in \<open>i\<close>.\<close>
  "tracking k =
     (startswith (py_lower k) ''utm_'' \<or> startswith (py_lower k) ''fbclid''
      \<or> startswith (py_lower k) ''gclid'' \<or> startswith (py_lower k) ''mc_eid'')"

definition strip_tracking :: "pylib \<Rightarrow> string \<Rightarrow> string option" where
  \<comment> \<open>\<open>_strip_tracking\<close>; \<open>None\<close>: \<open>urlsplit\<close> or \<open>urlencode\<close> raises\<close>
  "strip_tracking L u =
     (case urlsplit L u of
        None \<Rightarrow> None
      | Some sp \<Rightarrow>
          (let q = filter (\<lambda>(k, v). \<not> tracking k) (parse_qsl (sp_query sp))
           in case urlencode q of
                None \<Rightarrow> None
              | Some query \<Rightarrow>
                  Some (urlunsplit L \<lparr>sp_scheme = sp_scheme sp, sp_netloc = sp_netloc sp,
                                       sp_path = sp_path sp, sp_query = query, sp_fragment = []\<rparr>)))"

subsection \<open>Well-formed split results\<close>

definition scheme_ok :: "string \<Rightarrow> bool" where
  \<comment> \<open>a scheme as \<open>urlsplit\<close> returns it: a lower-case letter, then scheme characters, none upper-case\<close>
  "scheme_ok s = (s \<noteq> [] \<and> is_lower (hd s) \<and> list_all scheme_char s \<and> list_all (\<lambda>c. \<not> is_upper c) s)"

definition split_ok :: "pylib \<Rightarrow> split_result \<Rightarrow> bool" where
  \<comment> \<open>what holds of every result of \<open>urlsplit\<close>, apart from its query and fragment\<close>
  "split_ok L r =
     ((sp_scheme r = [] \<or> scheme_ok (sp_scheme r))
      \<and> list_all (\<lambda>c. \<not> unsafe_byte c \<and> \<not> netloc_delim c) (sp_netloc r)
      \<and> list_all (\<lambda>c. \<not> unsafe_byte c \<and> c \<noteq> CHR ''?'' \<and> c \<noteq> CHR ''#'') (sp_path r)
      \<and> (if sp_netloc r = [] then True
          else netloc_accepted L (sp_netloc r) \<and> (sp_path r = [] \<or> hd (sp_path r) = CHR ''/''))
      \<and> (if sp_scheme r = []
          then \<not> has_scheme (sp_path r) \<and> (sp_path r = [] \<or> \<not> c0_or_space (hd (sp_path r)))
          else True))"

section \<open>MD5\<close>

text \<open>
  \<open>hashlib.md5(bs).hexdigest()\<close>, the MD5 message digest of RFC 1321, on 32-bit words.
\<close>

definition md5_K :: "32 word list" where
  "md5_K =
    [0xd76aa478, 0xe8c7b756, 0x242070db, 0xc1bdceee,
     0xf57c0faf, 0x4787c62a, 0xa8304613, 0xfd469501,
     0x698098d8, 0x8b44f7af, 0xffff5bb1, 0x895cd7be,
     0x6b901122, 0xfd987193, 0xa679438e, 0x49b40821,
     0xf61e2562, 0xc040b340, 0x265e5a51, 0xe9b6c7aa,
     0xd62f105d, 0x02441453, 0xd8a1e681, 0xe7d3fbc8,
     0x21e1cde6, 0xc33707d6, 0xf4d50d87, 0x455a14ed,
     0xa9e3e905, 0xfcefa3f8, 0x676f02d9, 0x8d2a4c8a,
     0xfffa3942, 0x8771f681, 0x6d9d6122, 0xfde5380c,
     0xa4beea44, 0x4bdecfa9, 0xf6bb4b60, 0xbebfbc70,
     0x289b7ec6, 0xeaa127fa, 0xd4ef3085, 0x04881d05,
     0xd9d4d039, 0xe6db99e5, 0x1fa27cf8, 0xc4ac5665,
     0xf4292244, 0x432aff97, 0xab9423a7, 0xfc93a039,
     0x655b59c3, 0x8f0ccc92, 0xffeff47d, 0x85845dd1,
     0x6fa87e4f, 0xfe2ce6e0, 0xa3014314, 0x4e0811a1,
     0xf7537e82, 0xbd3af235, 0x2ad7d2bb, 0xeb86d391]"

definition md5_shift :: "nat list" where
  "md5_shift =
    [7, 12, 17, 22, 7, 12, 17, 22, 7, 12, 17, 22, 7, 12, 17, 22,
     5, 9, 14, 20, 5, 9, 14, 20, 5, 9, 14, 20, 5, 9, 14, 20,
     4, 11, 16, 23, 4, 11, 16, 23, 4, 11, 16, 23, 4, 11, 16, 23,
     6, 10, 15, 21, 6, 10, 15, 21, 6, 10, 15, 21, 6, 10, 15, 21]"

definition rotl32 :: "32 word \<Rightarrow> nat \<Rightarrow> 32 word" where
  "rotl32 x s = (push_bit s x) OR (drop_bit (32 - s) x)"

definition md5_F :: "nat \<Rightarrow> 32 word \<Rightarrow> 32 word \<Rightarrow> 32 word \<Rightarrow> 32 word" where
  "md5_F i b c d =
     (if i < 16 then (b AND c) OR ((NOT b) AND d)
      else if i < 32 then (d AND b) OR ((NOT d) AND c)
      else if i < 48 then b XOR c XOR d
      else c XOR (b OR (NOT d)))"

definition md5_g :: "nat \<Rightarrow> nat" where
  "md5_g i =
     (if i < 16 then i
      else if i < 32 then (5 * i + 1) mod 16
      else if i < 48 then (3 * i + 5) mod 16
      else (7 * i) mod 16)"

type_synonym md5_state = "32 word \<times> 32 word \<times> 32 word \<times> 32 word"

definition md5_op :: "32 word list \<Rightarrow> md5_state \<Rightarrow> nat \<Rightarrow> md5_state" where
  \<comment> \<open>operation \<open>i\<close> of a block with message words \<open>m\<close>\<close>
  "md5_op m st i =
     (case st of (a, b, c, d) \<Rightarrow>
        (d, b + rotl32 (md5_F i b c d + a + md5_K ! i + m ! md5_g i) (md5_shift ! i), b, c))"

fun md5_loop :: "32 word list \<Rightarrow> nat \<Rightarrow> nat \<Rightarrow> md5_state \<Rightarrow> md5_state" where
  \<comment> \<open>\<open>n\<close> operations, from operation \<open>i\<close> on\<close>
  "md5_loop m 0 i st = st"
| "md5_loop m (Suc n) i st = md5_loop m n (i + 1) (md5_op m st i)"

definition md5_block :: "md5_state \<Rightarrow> 32 word list \<Rightarrow> md5_state" where
  \<comment> \<open>the 64 operations on one block of 16 message words, added to the state\<close>
  "md5_block st m =
     (case st of (a0, b0, c0, d0) \<Rightarrow>
        (case md5_loop m 64 0 st of (a, b, c, d) \<Rightarrow> (a0 + a, b0 + b, c0 + c, d0 + d)))"

fun le_words :: "nat list \<Rightarrow> 32 word list" where
  \<comment> \<open>bytes to little-endian 32-bit words\<close>
  "le_words (b0 # b1 # b2 # b3 # bs) =
     word_of_nat (b0 + 256 * b1 + 65536 * b2 + 16777216 * b3) # le_words bs"
| "le_words bs = []"

fun le_bytes :: "nat \<Rightarrow> nat \<Rightarrow> nat list" where
  \<comment> \<open>the \<open>k\<close> little-endian bytes of \<open>n\<close>\<close>
  "le_bytes 0 n = []"
| "le_bytes (Suc k) n = (n mod 256) # le_bytes k (n div 256)"

definition md5_pad :: "nat list \<Rightarrow> nat list" where
  \<comment> \<open>the message, the byte 0x80, zeros up to 56 modulo 64, the bit length on 8 bytes\<close>
  "md5_pad bs =
     bs @ [128] @ replicate ((119 - length bs mod 64) mod 64) 0 @ le_bytes 8 (8 * length bs)"

fun md5_blocks :: "md5_state \<Rightarrow> 32 word list \<Rightarrow> nat \<Rightarrow> md5_state" where
  \<comment> \<open>\<open>n\<close> blocks of 16 words\<close>
  "md5_blocks st ws 0 = st"
| "md5_blocks st ws (Suc n) = md5_blocks (md5_block st (take 16 ws)) (drop 16 ws) n"

definition hex_lower :: "nat \<Rightarrow> char" where
  "hex_lower n = ''0123456789abcdef'' ! (n mod 16)"

definition hex_byte :: "nat \<Rightarrow> string" where
  "hex_byte b = [hex_lower (b div 16), hex_lower (b mod 16)]"

definition md5_hexdigest :: "string \<Rightarrow> string" where
  "md5_hexdigest s =
     (let ws = le_words (md5_pad (map py_ord s));
          st = md5_blocks (0x67452301, 0xefcdab89, 0x98badcfe, 0x10325476) ws (length ws div 16)
      in case st of (a, b, c, d) \<Rightarrow>
           concat (map hex_byte (concat (map (\<lambda>w. le_bytes 4 (unat w)) [a, b, c, d]))))"

section \<open>Document names\<close>

function re_sub_nonalnum :: "string \<Rightarrow> string" where
  \<comment> \<open>\<open>re.sub(r"[^a-zA-Z0-9]+", "-", s)\<close>\<close>
  "re_sub_nonalnum [] = []"
| "re_sub_nonalnum (c # cs) =
     (if is_alnum c then c # re_sub_nonalnum cs
      else CHR ''-'' # re_sub_nonalnum (dropWhile (\<lambda>x. \<not> is_alnum x) cs))"
  by pat_completeness auto
termination
  by (relation "measure length") (auto simp: length_dropWhile_le less_Suc_eq_le)

definition strip_chars :: "char \<Rightarrow> string \<Rightarrow> string" where
  \<comment> \<open>\<open>s.strip(c)\<close>\<close>
  "strip_chars c s = rev (dropWhile (\<lambda>x. x = c) (rev (dropWhile (\<lambda>x. x = c) s)))"

definition sanitize_filename_from_url :: "pylib \<Rightarrow> string \<Rightarrow> string option" where
  \<comment> \<open>\<open>None\<close>: \<open>urldefrag\<close> or \<open>urlparse\<close> raises \<open>ValueError\<close>\<close>
  "sanitize_filename_from_url L url =
     (case urldefrag L url of
        None \<Rightarrow> None
      | Some (clean_url, _) \<Rightarrow>
          (let h = take 10 (md5_hexdigest clean_url)
           in case urlparse L clean_url of
                None \<Rightarrow> None
              | Some parsed \<Rightarrow>
                  (let stem = strip_chars CHR ''-''
                                (take 80 (re_sub_nonalnum (pr_netloc parsed @ pr_path parsed)))
                   in Some ((if stem = [] then ''page'' else stem) @ ''-'' @ h @ ''.pdf''))))"

section \<open>The output area\<close>

datatype node = Directory | PdfFile "block list" | ZipFile "(string \<times> node) list"

type_synonym fs = "(string \<times> node) list"

definition fs_lookup :: "string \<Rightarrow> fs \<Rightarrow> node option" where
  "fs_lookup p files = map_of files p"

definition fs_put :: "string \<Rightarrow> node \<Rightarrow> fs \<Rightarrow> fs" where
  \<comment> \<open>create or overwrite the entry at path \<open>p\<close>\<close>
  "fs_put p n files = (p, n) # filter (\<lambda>e. fst e \<noteq> p) files"

definition path_join :: "string \<Rightarrow> string \<Rightarrow> string" where
  \<comment> \<open>\<open>os.path.join(d, name)\<close> for a relative \<open>name\<close> and a \<open>d\<close> that does not end in a slash\<close>
  "path_join d name = d @ ''/'' @ name"

definition makedirs :: "string \<Rightarrow> fs \<Rightarrow> fs" where
  \<comment> \<open>\<open>os.makedirs(d, exist_ok=True)\<close>, the parent being there\<close>
  "makedirs d files = (if fs_lookup d files = None then fs_put d Directory files else files)"

definition child_name :: "string \<Rightarrow> string \<Rightarrow> string option" where
  "child_name d p =
     (let name = drop (Suc (length d)) p
      in if startswith p (d @ ''/'') \<and> name \<noteq> [] \<and> CHR ''/'' \<notin> set name then Some name else None)"

definition listdir :: "string \<Rightarrow> fs \<Rightarrow> string list" where
  \<comment> \<open>\<open>os.listdir(d)\<close>, in the order of the entries\<close>
  "listdir d files = List.map_filter (\<lambda>e. child_name d (fst e)) files"

section \<open>The spider\<close>

text \<open>
  What the crawler takes from outside: the rendering engine and Scrapy's downloader (with its
  retries and its HTTP error filter) as \<open>download\<close>, giving for a URL the response or the final
  failure; Scrapy's link extractor, built from the allowed domains; Scrapy's request
  fingerprint; the layout engine, which renders a story or raises; and a fatal failure of
  the crawl as a whole. The response carries what lxml extracts from the page: the first
  \<open>title\<close> text, the visible text, the whitelisted meta lines.
\<close>

record response =
  r_url :: string
  r_title :: "string option"
  r_text :: string
  r_meta :: string
  r_anchors :: "string list"

datatype fetch_result = Response response | Failure string

record env =
  lib :: pylib
  download :: "string \<Rightarrow> fetch_result"
  extract_links :: "string list \<Rightarrow> response \<Rightarrow> string list"
  fingerprint :: "string \<Rightarrow> string"
  build_ok :: "block list \<Rightarrow> bool"
  engine_error :: "string option"

definition make_pdf :: "env \<Rightarrow> string \<Rightarrow> payload \<Rightarrow> fs \<Rightarrow> (bool \<times> fs) option" where
  \<comment> \<open>\<open>Some (True, files')\<close>: the PDF is written at \<open>path\<close>; \<open>Some (False, files)\<close>: the layout
      engine raises; \<open>None\<close>: no return\<close>
  "make_pdf E path pl files =
     (case make_pdf_story pl of
        None \<Rightarrow> None
      | Some story \<Rightarrow>
          Some (if build_ok E story then (True, fs_put path (PdfFile story) files)
                else (False, files)))"

definition errback_first :: "env \<Rightarrow> string \<Rightarrow> string \<Rightarrow> string \<Rightarrow> fs \<Rightarrow> fs option" where
  \<comment> \<open>\<open>errback_first(failure)\<close> with \<open>reason = repr(failure.value)\<close>; the \<open>except\<close> branch only logs\<close>
  "errback_first E outdir start_url reason files =
     (let url = start_url
      in case sanitize_filename_from_url (lib E) url of
           None \<Rightarrow> Some files
         | Some filename \<Rightarrow>
             (let pdf_path = path_join outdir filename;
                  pl = \<lparr>p_url = url, p_title = ''(Fetch error)'', p_meta = [],
                        p_text = ''Failed to fetch '' @ url @ [CHR 0x0A, CHR 0x0A] @ reason,
                        p_outgoing_links = []\<rparr>
              in map_option snd (make_pdf E pdf_path pl files)))"

fun follow_links :: "pylib \<Rightarrow> string list \<Rightarrow> string list \<times> bool" where
  \<comment> \<open>the loop over the extracted links: the hrefs followed, and whether the loop ended
      without a \<open>ValueError\<close>\<close>
  "follow_links L [] = ([], True)"
| "follow_links L (link # links) =
     (case urldefrag L link of
        None \<Rightarrow> ([], False)
      | Some (href, _) \<Rightarrow>
          (case strip_tracking L href of
             None \<Rightarrow> ([], False)
           | Some href' \<Rightarrow>
               (case follow_links L links of (hrefs, ok) \<Rightarrow> (href' # hrefs, ok))))"

definition parse :: "env \<Rightarrow> string \<Rightarrow> string list \<Rightarrow> response \<Rightarrow> fs \<Rightarrow> (string list \<times> fs) option"
  where
  \<comment> \<open>the \<open>parse\<close> callback: the URLs it yields requests for, and the output area after it\<close>
  "parse E outdir allowed resp files =
     (let url = r_url resp;
          title = strip (case r_title resp of None \<Rightarrow> [] | Some t \<Rightarrow> t);
          (links, ok) = follow_links (lib E) (extract_links E allowed resp)
      in if \<not> ok then Some (links, files)
         else case sanitize_filename_from_url (lib E) url of
                None \<Rightarrow> Some (links, files)
              | Some filename \<Rightarrow>
                  (let pdf_path = path_join outdir filename;
                       pl = \<lparr>p_url = url, p_title = (if title = [] then ''(No title)'' else title),
                             p_meta = r_meta resp, p_text = r_text resp,
                             p_outgoing_links = links\<rparr>
                   in map_option (\<lambda>r. (links, snd r)) (make_pdf E pdf_path pl files)))"

subsection \<open>Scrapy's engine\<close>

text \<open>
  The part of Scrapy that the claims about depth and dispatch rest on, as its documentation
  gives it: requests leave the scheduler first in, first out; the request a callback yields
  has the depth of its response plus one, and the depth middleware drops it when
  \<open>DEPTH_LIMIT\<close> is not zero and the depth is above it (a limit of zero imposes no limit); the
  scheduler drops a request whose fingerprint it has seen, unless \<open>dont_filter\<close> is set, and
  then does not record it either; a failed download calls the request's errback, if it has
  one. Downloads are taken one at a time.
\<close>

record request =
  rq_url :: string
  rq_depth :: nat
  rq_errback :: bool
  rq_dont_filter :: bool

definition depth_allowed :: "nat \<Rightarrow> nat \<Rightarrow> bool" where
  \<comment> \<open>\<open>not (self.maxdepth and depth > self.maxdepth)\<close>\<close>
  "depth_allowed maxdepth d = (\<not> (maxdepth \<noteq> 0 \<and> d > maxdepth))"

fun enqueue :: "env \<Rightarrow> nat \<Rightarrow> nat \<Rightarrow> string list \<Rightarrow> request list \<Rightarrow> string list
    \<Rightarrow> request list \<times> string list" where
  \<comment> \<open>the requests yielded at depth \<open>d\<close>, through the depth middleware and the duplicate filter\<close>
  "enqueue E maxdepth d [] queue seen = (queue, seen)"
| "enqueue E maxdepth d (href # hrefs) queue seen =
     (if depth_allowed maxdepth d \<and> fingerprint E href \<notin> set seen
      then enqueue E maxdepth d hrefs
             (queue @ [\<lparr>rq_url = href, rq_depth = d, rq_errback = False, rq_dont_filter = False\<rparr>])
             (seen @ [fingerprint E href])
      else enqueue E maxdepth d hrefs queue seen)"

definition start_requests :: "string \<Rightarrow> request list" where
  "start_requests start_url =
     [\<lparr>rq_url = start_url, rq_depth = 0, rq_errback = True, rq_dont_filter = True\<rparr>]"

definition dispatch :: "env \<Rightarrow> string \<Rightarrow> string list \<Rightarrow> string \<Rightarrow> request \<Rightarrow> fs
    \<Rightarrow> (string list \<times> fs) option" where
  \<comment> \<open>one request through the downloader and its callback or errback: the URLs the callback
      yields requests for, and the output area afterwards\<close>
  "dispatch E outdir allowed start_url rq files =
     (case download E (rq_url rq) of
        Failure reason \<Rightarrow>
          (if rq_errback rq
           then map_option (\<lambda>files'. ([], files')) (errback_first E outdir start_url reason files)
           else Some ([], files))
      | Response resp \<Rightarrow> parse E outdir allowed resp files)"

partial_function (option) engine :: "env \<Rightarrow> string \<Rightarrow> string list \<Rightarrow> string \<Rightarrow> nat
    \<Rightarrow> request list \<Rightarrow> string list \<Rightarrow> fs \<Rightarrow> fs option" where
  \<comment> \<open>runs until the scheduler is empty; \<open>None\<close>: the crawl never drains\<close>
  "engine E outdir allowed start_url maxdepth queue seen files =
     (case queue of
        [] \<Rightarrow> Some files
      | rq # rest \<Rightarrow>
          (case dispatch E outdir allowed start_url rq files of
             None \<Rightarrow> None
           | Some (hrefs, files') \<Rightarrow>
               (case enqueue E maxdepth (Suc (rq_depth rq)) hrefs rest seen of
                  (queue', seen') \<Rightarrow>
                    engine E outdir allowed start_url maxdepth queue' seen' files')))"

declare engine.simps [code]

datatype crawl_error = ValueError string | CrawlError string  \<comment> \<open>each with its \<open>str(e)\<close>\<close>

definition crawl_to_pdfs :: "env \<Rightarrow> string \<Rightarrow> nat \<Rightarrow> string \<Rightarrow> fs
    \<Rightarrow> ((crawl_error + bool) \<times> fs) option" where
  \<comment> \<open>\<open>Inl e\<close>: the crawl raises \<open>e\<close>; \<open>Inr True\<close>: it returns; \<open>None\<close>: it never drains\<close>
  "crawl_to_pdfs E start_url depth outdir files =
     (case same_site_allowed_domains (lib E) start_url of
        None \<Rightarrow> Some (Inl (ValueError (value_error_text (lib E) start_url)), files)
      | Some allowed \<Rightarrow>
          (case engine_error E of
             Some e \<Rightarrow> Some (Inl (CrawlError e), files)
           | None \<Rightarrow>
               (case engine E outdir allowed start_url depth (start_requests start_url) [] files of
                  None \<Rightarrow> None
                | Some files' \<Rightarrow> Some (Inr True, files'))))"

section \<open>The endpoint\<close>

record crawl_request =
  cr_url :: string
  cr_depth :: nat

datatype http_result =
  HTTPException nat string
| FileResponse string string string

definition str_of_error :: "crawl_error \<Rightarrow> string" where
  "str_of_error e = (case e of ValueError m \<Rightarrow> m | CrawlError m \<Rightarrow> m)"

definition scrape :: "env \<Rightarrow> string \<Rightarrow> crawl_request \<Rightarrow> fs \<Rightarrow> (http_result \<times> fs) option" where
  \<comment> \<open>\<open>tmp\<close> is the directory that \<open>tempfile.mkdtemp\<close> creates; the result is the response
      or the exception raised, with the file system the call leaves behind\<close>
  "scrape E tmp req files =
     (let workdir = tmp;
          files = fs_put workdir Directory files;
          outdir = path_join workdir ''pdfs'';
          files = makedirs outdir files;
          start_url = cr_url req
      in case crawl_to_pdfs E start_url (cr_depth req) outdir files of
           None \<Rightarrow> None
         | Some (Inl e, files) \<Rightarrow>
             Some (HTTPException 500 (''Crawl failed: '' @ str_of_error e), files)
         | Some (Inr ok, files) \<Rightarrow>
             (let pdf_files = filter (\<lambda>f. endswith (py_lower f) ''.pdf'') (listdir outdir files)
              in if pdf_files = []
                 then Some (HTTPException 504
                        ''Fetch timed out or was blocked before any page could be saved.'', files)
                 else (let zip_path = path_join workdir ''result.zip'';
                           members = List.map_filter
                             (\<lambda>name. map_option (\<lambda>n. (name, n)) (fs_lookup (path_join outdir name) files))
                             pdf_files;
                           files = fs_put zip_path (ZipFile members) files
                       in Some (FileResponse zip_path ''application/zip'' ''scraped_pdfs.zip'',
                                files))))"


section \<open>A small site\<close>

text \<open>
  The home page of \<open>example.com\<close> links to one more page of the site, which links nowhere.
  Variants: the second page cannot be fetched; the crawl fails as a whole.
\<close>

definition home :: response where
  "home = \<lparr>r_url = ''https://example.com/'', r_title = Some ''Home'', r_text = ''Welcome'',
           r_meta = [], r_anchors = [''https://example.com/b'']\<rparr>"

definition page_b :: response where
  "page_b = \<lparr>r_url = ''https://example.com/b'', r_title = None, r_text = ''More'',
             r_meta = [], r_anchors = []\<rparr>"

definition site :: env where
  "site = \<lparr>lib = strict_lib,
           download = (\<lambda>u. if u = ''https://example.com/'' then Response home
                            else if u = ''https://example.com/b'' then Response page_b
                            else Failure ''HttpError(404)''),
           extract_links = (\<lambda>allowed resp. r_anchors resp),
           fingerprint = (\<lambda>u. u),
           build_ok = (\<lambda>story. True),
           engine_error = None\<rparr>"



section \<open>The chunking loop\<close>

lemma rfind_aux_absent: "c \<notin> set xs \<Longrightarrow> rfind_aux c xs i best = best"
  by (induction xs arbitrary: i best) auto

lemma rfind_aux_present:
  "c \<in> set xs \<Longrightarrow> i \<le> rfind_aux c xs i best \<and> rfind_aux c xs i best < i + int (length xs)
     \<and> xs ! nat (rfind_aux c xs i best - i) = c"
proof (induction xs arbitrary: i best)
  case Nil then show ?case by simp
next
  case (Cons x xs)
  show ?case
  proof (cases "c \<in> set xs")
    case True
    define r where "r = rfind_aux c xs (i + 1) (if x = c then i else best)"
    from Cons.IH[OF True, of "i + 1" "if x = c then i else best"]
    have ih: "i + 1 \<le> r" "r < i + 1 + int (length xs)" "xs ! nat (r - (i + 1)) = c"
      by (simp_all add: r_def)
    from ih(1) have "nat (r - i) = Suc (nat (r - (i + 1)))" by simp
    with ih show ?thesis by (simp add: r_def[symmetric])
  next
    case False
    with Cons.prems have "x = c" by simp
    with False show ?thesis by (simp add: rfind_aux_absent)
  qed
qed

lemma rfind_minus1: "rfind c s = - 1 \<longleftrightarrow> c \<notin> set s"
  using rfind_aux_present[of c s 0 "-1"] rfind_aux_absent[of c s 0 "-1"]
  by (auto simp: rfind_def)

lemma rfind_found:
  "c \<in> set s \<Longrightarrow> 0 \<le> rfind c s \<and> rfind c s < int (length s) \<and> s ! nat (rfind c s) = c"
  using rfind_aux_present[of c s 0 "-1"] by (simp add: rfind_def)

lemma chunk_step_cases:
  assumes "para \<noteq> []" and "chunk_step para = (piece, rest)"
  shows "(rest = [] \<and> piece = para \<and> (length para \<le> CHUNK \<or> CHR '' '' \<notin> set (take CHUNK para)))
       \<or> (rest \<noteq> [] \<and> piece @ CHR '' '' # rest = para \<and> length piece < CHUNK
           \<and> length rest < length para)"
proof (cases "rfind CHR '' '' (take CHUNK para) = - 1 \<or> length para \<le> CHUNK")
  case True
  with assms show ?thesis by (auto simp: chunk_step_def Let_def rfind_minus1)
next
  case False
  define cut where "cut = rfind CHR '' '' (take CHUNK para)"
  from False have mem: "CHR '' '' \<in> set (take CHUNK para)" and long: "CHUNK < length para"
    by (auto simp: rfind_minus1)
  from rfind_found[OF mem] long
  have c0: "0 \<le> cut" and c1: "nat cut < CHUNK" and c2: "para ! nat cut = CHR '' ''"
    by (auto simp: cut_def)
  from False assms have pr: "piece = take (nat cut) para" "rest = drop (nat (cut + 1)) para"
    by (auto simp: chunk_step_def Let_def cut_def)
  from c0 have n: "nat (cut + 1) = Suc (nat cut)" by simp
  from c1 long have lt: "nat cut < length para" by simp
  have "piece @ CHR '' '' # rest = para"
    using id_take_nth_drop[OF lt] c2 by (simp add: pr n)
  moreover have "rest \<noteq> []" using c1 long by (simp add: pr n)
  moreover have "length piece < CHUNK" using c1 lt by (simp add: pr)
  moreover have "length rest < length para" using lt by (simp add: pr n)
  ultimately show ?thesis by simp
qed

lemma chunk_while_spec:
  "\<exists>ps. chunk_while para acc = Some (acc @ ps)
      \<and> join '' '' ps = para \<and> (para \<noteq> [] \<longrightarrow> ps \<noteq> [])
      \<and> (\<forall>p \<in> set (butlast ps). length p < CHUNK)
      \<and> (ps \<noteq> [] \<longrightarrow> length (last ps) \<le> CHUNK \<or> CHR '' '' \<notin> set (take CHUNK (last ps)))"
proof (induction "length para" arbitrary: para acc rule: less_induct)
  case less
  show ?case
  proof (cases "para = []")
    case True
    then show ?thesis by (simp add: chunk_while.simps)
  next
    case False
    obtain piece rest where st: "chunk_step para = (piece, rest)" by (cases "chunk_step para")
    from chunk_step_cases[OF False st] consider
      (whole) "rest = []" "piece = para"
        "length para \<le> CHUNK \<or> CHR '' '' \<notin> set (take CHUNK para)"
    | (cut) "rest \<noteq> []" "piece @ CHR '' '' # rest = para" "length piece < CHUNK"
        "length rest < length para"
      by blast
    then show ?thesis
    proof cases
      case whole
      with False st show ?thesis
        by (auto simp: chunk_while.simps)
    next
      case cut
      note r = cut
      from less[OF r(4), of "acc @ [piece]"] obtain ps where
        ps: "chunk_while rest (acc @ [piece]) = Some ((acc @ [piece]) @ ps)"
          "join '' '' ps = rest" "ps \<noteq> []"
          "\<forall>p \<in> set (butlast ps). length p < CHUNK"
          "length (last ps) \<le> CHUNK \<or> CHR '' '' \<notin> set (take CHUNK (last ps))"
        using r(1) by auto
      from ps(3) obtain q qs where q: "ps = q # qs" by (cases ps) auto
      have a: "chunk_while para acc = Some (acc @ piece # ps)"
        using False st ps(1) by (subst chunk_while.simps) simp
      have b: "join '' '' (piece # ps) = para" using ps(2) r(2) q by simp
      have c: "\<forall>p \<in> set (butlast (piece # ps)). length p < CHUNK"
        using ps(4) r(3) ps(3) by simp
      have d: "length (last (piece # ps)) \<le> CHUNK \<or> CHR '' '' \<notin> set (take CHUNK (last (piece # ps)))"
        using ps(5) ps(3) by simp
      show ?thesis using a b c d by (intro exI[of _ "piece # ps"]) blast
    qed
  qed
qed


lemma chunk_while_example:
  "chunk_while (CHR ''a'' # CHR '' '' # replicate 1600 (CHR ''b'')) []
     = Some [''a'', replicate 1600 (CHR ''b'')]"
proof -
  have s1: "chunk_step (CHR ''a'' # CHR '' '' # replicate 1600 (CHR ''b''))
      = (''a'', replicate 1600 (CHR ''b''))"
    by (simp add: chunk_step_def CHUNK_def rfind_def rfind_aux_absent)
  have s2: "chunk_step (replicate 1600 (CHR ''b'')) = (replicate 1600 (CHR ''b''), [])"
    by (simp add: chunk_step_def CHUNK_def)
  show ?thesis
    by (subst chunk_while.simps, simp add: s1, subst chunk_while.simps, simp add: s2,
        subst chunk_while.simps, simp)
qed

section \<open>Paragraphs and their pieces\<close>

lemma rfind_aux_last: "c \<notin> set b \<Longrightarrow> rfind_aux c (a @ c # b) i best = i + int (length a)"
proof (induction a arbitrary: i best)
  case Nil
  then show ?case by (simp add: rfind_aux_absent)
next
  case (Cons x a)
  from Cons.IH[OF Cons.prems, of "i + 1" "if x = c then i else best"] show ?case by simp
qed

lemma rfind_last:
  assumes "k < length s" and "s ! k = c" and "\<forall>j. k < j \<and> j < length s \<longrightarrow> s ! j \<noteq> c"
  shows "rfind c s = int k"
proof -
  have s: "s = take k s @ c # drop (Suc k) s"
    using id_take_nth_drop[OF assms(1)] assms(2) by simp
  have "c \<notin> set (drop (Suc k) s)"
  proof
    assume "c \<in> set (drop (Suc k) s)"
    then obtain i where i: "i < length (drop (Suc k) s)" "drop (Suc k) s ! i = c"
      by (auto simp: in_set_conv_nth)
    then have "Suc k + i < length s" "s ! (Suc k + i) = c" by auto
    with assms(3) show False by auto
  qed
  from rfind_aux_last[OF this, of "take k s" 0 "- 1"] assms(1) show ?thesis
    unfolding rfind_def by (subst s) simp
qed

lemma chunk_step_whole:
  "length para \<le> CHUNK \<or> CHR '' '' \<notin> set (take CHUNK para) \<Longrightarrow> chunk_step para = (para, [])"
  by (auto simp: chunk_step_def Let_def rfind_minus1)

lemma chunk_step_cut:
  assumes "CHUNK < length para" and "k < CHUNK" and "para ! k = CHR '' ''"
    and "\<forall>j. k < j \<and> j < CHUNK \<longrightarrow> para ! j \<noteq> CHR '' ''"
  shows "chunk_step para = (take k para, drop (Suc k) para)"
proof -
  have "rfind CHR '' '' (take CHUNK para) = int k"
    using assms by (intro rfind_last) auto
  moreover have "nat (int k + 1) = Suc k" by simp
  ultimately show ?thesis using assms(1) by (simp add: chunk_step_def Let_def)
qed

lemma chunk_while_acc:
  "chunk_while para acc = map_option (\<lambda>ps. acc @ ps) (chunk_while para [])"
proof (induction "length para" arbitrary: para acc rule: less_induct)
  case less
  show ?case
  proof (cases "para = []")
    case True
    then show ?thesis by (simp add: chunk_while.simps)
  next
    case False
    obtain piece rest where st: "chunk_step para = (piece, rest)" by (cases "chunk_step para")
    from chunk_step_cases[OF False st] False have lt: "length rest < length para" by auto
    have a: "chunk_while para acc = chunk_while rest (acc @ [piece])"
      using False st by (subst chunk_while.simps) simp
    have b: "chunk_while para [] = chunk_while rest [piece]"
      using False st by (subst chunk_while.simps) simp
    have "chunk_while rest (acc @ [piece])
        = map_option (\<lambda>ps. (acc @ [piece]) @ ps) (chunk_while rest [])"
      by (rule less[OF lt])
    moreover have "chunk_while rest [piece] = map_option (\<lambda>ps. [piece] @ ps) (chunk_while rest [])"
      by (rule less[OF lt])
    ultimately show ?thesis
      unfolding a b by (cases "chunk_while rest []") simp_all
  qed
qed

lemma chunk_paragraphs_groups:
  "\<exists>groups. list_all2 (\<lambda>para g. chunk_while para [] = Some g)
               (filter (\<lambda>p. p \<noteq> []) (map strip ps)) groups
      \<and> chunk_paragraphs ps acc = Some (acc @ concat groups)"
proof (induction ps arbitrary: acc)
  case Nil
  show ?case by simp
next
  case (Cons p ps)
  show ?case
  proof (cases "strip p = []")
    case True
    with Cons[of acc] show ?thesis by simp
  next
    case False
    from chunk_while_spec[of "strip p" "[]"] obtain g where
      g: "chunk_while (strip p) [] = Some g" by auto
    then have ga: "chunk_while (strip p) acc = Some (acc @ g)"
      by (subst chunk_while_acc) simp
    from Cons[of "acc @ g"] obtain groups where
      gs: "list_all2 (\<lambda>para g. chunk_while para [] = Some g)
             (filter (\<lambda>p. p \<noteq> []) (map strip ps)) groups"
      and r: "chunk_paragraphs ps (acc @ g) = Some ((acc @ g) @ concat groups)"
      by blast
    show ?thesis
      using False g ga gs r by (intro exI[of _ "g # groups"]) simp
  qed
qed

lemma last_newline_None:
  "CHR 0x0A \<notin> set (takeWhile py_isspace s) \<Longrightarrow> last_newline s i best = best"
  by (induction s arbitrary: i best) (auto split: if_splits)

lemma last_newline_Some:
  "CHR 0x0A \<in> set (takeWhile py_isspace s) \<Longrightarrow>
   \<exists>m. last_newline s i best = Some (i + m) \<and> m < length (takeWhile py_isspace s)
      \<and> takeWhile py_isspace s ! m = CHR 0x0A
      \<and> CHR 0x0A \<notin> set (drop (Suc m) (takeWhile py_isspace s))"
proof (induction s arbitrary: i best)
  case Nil
  then show ?case by simp
next
  case (Cons x xs)
  from Cons.prems have sp: "py_isspace x" by (auto split: if_splits)
  show ?case
  proof (cases "CHR 0x0A \<in> set (takeWhile py_isspace xs)")
    case True
    from Cons.IH[OF True, of "Suc i" "if x = CHR 0x0A then Some i else best"] obtain m where
      m: "last_newline xs (Suc i) (if x = CHR 0x0A then Some i else best) = Some (Suc i + m)"
        "m < length (takeWhile py_isspace xs)" "takeWhile py_isspace xs ! m = CHR 0x0A"
        "CHR 0x0A \<notin> set (drop (Suc m) (takeWhile py_isspace xs))"
      by blast
    show ?thesis
      using sp m by (intro exI[of _ "Suc m"]) simp
  next
    case False
    with Cons.prems sp have x: "x = CHR 0x0A" by simp
    from last_newline_None[OF False, of "Suc i" "Some i"] x sp False show ?thesis
      by (intro exI[of _ 0]) simp
  qed
qed

lemma blank_at_Cons:
  "blank_at (x # t) (Suc j) = blank_at t j"
  "blank_at (x # t) 0 = (x = CHR 0x0A \<and> CHR 0x0A \<in> set (takeWhile py_isspace t))"
  by (simp_all add: blank_at_def)

lemma re_split_skip:
  assumes "\<forall>j < length a. \<not> blank_at (a @ b) j"
  shows "re_split_blank cur (a @ b) = re_split_blank (cur @ a) b"
  using assms
proof (induction a arbitrary: cur)
  case Nil
  show ?case by simp
next
  case (Cons x a)
  from Cons.prems[rule_format, of 0] have z: "\<not> blank_at (x # a @ b) 0" by simp
  have rest: "\<forall>j < length a. \<not> blank_at (a @ b) j"
  proof (intro allI impI)
    fix j assume "j < length a"
    with Cons.prems[rule_format, of "Suc j"] show "\<not> blank_at (a @ b) j"
      by (simp add: blank_at_Cons)
  qed
  have "re_split_blank cur (x # a @ b) = re_split_blank (cur @ [x]) (a @ b)"
  proof (cases "x = CHR 0x0A")
    case True
    with z have "CHR 0x0A \<notin> set (takeWhile py_isspace (a @ b))" by (simp add: blank_at_Cons)
    from last_newline_None[OF this, of 0 None] True show ?thesis by simp
  next
    case False
    then show ?thesis by simp
  qed
  also have "\<dots> = re_split_blank ((cur @ [x]) @ a) b" by (rule Cons.IH[OF rest])
  finally show ?case by simp
qed

lemma re_split_none: "\<forall>k. \<not> blank_at t k \<Longrightarrow> re_split_blank cur t = [cur @ t]"
  using re_split_skip[of t "[]" cur] by simp

lemma re_split_first:
  assumes "blank_at t k" and "\<forall>j < k. \<not> blank_at t j"
  shows "\<exists>m. m < length (takeWhile py_isspace (drop (Suc k) t))
      \<and> takeWhile py_isspace (drop (Suc k) t) ! m = CHR 0x0A
      \<and> CHR 0x0A \<notin> set (drop (Suc m) (takeWhile py_isspace (drop (Suc k) t)))
      \<and> re_split_blank cur t = (cur @ take k t) # re_split_blank [] (drop (k + m + 2) t)"
proof -
  define a where "a = take k t"
  define cs where "cs = drop (Suc k) t"
  from assms(1) have k: "k < length t" and nl: "t ! k = CHR 0x0A"
    and w: "CHR 0x0A \<in> set (takeWhile py_isspace cs)"
    by (simp_all add: blank_at_def cs_def)
  have t: "t = a @ CHR 0x0A # cs"
    using id_take_nth_drop[OF k] nl by (simp add: a_def cs_def)
  have la: "length a = k" using k by (simp add: a_def)
  have "\<forall>j < length a. \<not> blank_at (a @ CHR 0x0A # cs) j"
    using assms(2) la t by simp
  from re_split_skip[OF this, of cur]
  have 1: "re_split_blank cur t = re_split_blank (cur @ a) (CHR 0x0A # cs)"
    using t by simp
  from last_newline_Some[OF w, of 0 None] obtain m where
    m: "last_newline cs 0 None = Some m" "m < length (takeWhile py_isspace cs)"
      "takeWhile py_isspace cs ! m = CHR 0x0A"
      "CHR 0x0A \<notin> set (drop (Suc m) (takeWhile py_isspace cs))"
    by auto
  have 2: "re_split_blank (cur @ a) (CHR 0x0A # cs) = (cur @ a) # re_split_blank [] (drop (Suc m) cs)"
    using m(1) by simp
  have 3: "drop (Suc m) cs = drop (k + m + 2) t"
    by (simp add: cs_def add.commute)
  from 1 2 3 m(2,3,4) show ?thesis
    unfolding a_def cs_def by (intro exI[of _ m]) simp
qed

lemma re_split_nonempty: "re_split_blank cur s \<noteq> []"
  by (induction cur s rule: re_split_blank.induct) (auto split: option.splits)

lemma re_split_two:
  assumes "blank_at t k"
  shows "2 \<le> length (re_split_blank [] t)"
proof -
  define k0 where "k0 = (LEAST k. blank_at t k)"
  from assms have b: "blank_at t k0" unfolding k0_def by (rule LeastI)
  have "\<forall>j < k0. \<not> blank_at t j" unfolding k0_def using not_less_Least by blast
  from re_split_first[OF b this, of "[]"] obtain m where
    "re_split_blank [] t = take k0 t # re_split_blank [] (drop (k0 + m + 2) t)" by auto
  with re_split_nonempty[of "[]" "drop (k0 + m + 2) t"] show ?thesis
    by (cases "re_split_blank [] (drop (k0 + m + 2) t)") auto
qed

lemma split_paragraphs_blank:
  "split_paragraphs raw
     = (if \<exists>k. blank_at (strip raw) k then re_split_blank [] (strip raw) else [raw])"
proof (cases "\<exists>k. blank_at (strip raw) k")
  case True
  then obtain k where "blank_at (strip raw) k" by blast
  from re_split_two[OF this] True show ?thesis
    by (simp add: split_paragraphs_def Let_def)
next
  case False
  then have "re_split_blank [] (strip raw) = [strip raw]"
    using re_split_none[of "strip raw" "[]"] by simp
  with False show ?thesis by (simp add: split_paragraphs_def Let_def)
qed

text \<open>
  C10. The chunking loop of \<open>make_pdf\<close> returns for every paragraph, with any pieces already
  emitted: each pass through its body leaves a strictly shorter \<open>para\<close>.
\<close>

theorem chunk_loop_terminates:
  "(\<exists>pieces. chunk_while para acc = Some pieces)
   \<and> (para \<noteq> [] \<longrightarrow> length (snd (chunk_step para)) < length para)"
proof
  from chunk_while_spec[of para acc] show "\<exists>pieces. chunk_while para acc = Some pieces"
    by blast
next
  show "para \<noteq> [] \<longrightarrow> length (snd (chunk_step para)) < length para"
  proof
    assume ne: "para \<noteq> []"
    obtain piece rest where st: "chunk_step para = (piece, rest)" by (cases "chunk_step para")
    from chunk_step_cases[OF ne st] ne show "length (snd (chunk_step para)) < length para"
      by (auto simp: st)
  qed
qed

theorem chunk_loop_terminates_witness:
  "(CHR ''a'' # CHR '' '' # replicate 1600 (CHR ''b'')) \<noteq> []
   \<and> (\<exists>pieces. chunk_while (CHR ''a'' # CHR '' '' # replicate 1600 (CHR ''b'')) [] = Some pieces)
   \<and> length (snd (chunk_step (CHR ''a'' # CHR '' '' # replicate 1600 (CHR ''b'')))) < 1602"
  using chunk_loop_terminates[of "CHR ''a'' # CHR '' '' # replicate 1600 (CHR ''b'')" "[]"]
  by simp

text \<open>
  C5, as the code has it. The body text is stripped and split at the matches of
  \<open>\n\s*\n\<close>, each taken at the first line feed that has a second line feed in the whitespace
  after it and running to the last line feed of that whitespace; a text without such a
  blank line is one paragraph. Every paragraph is stripped, an empty one is skipped, and the
  pieces of the others, in order, are the text blocks of the story. A paragraph of at most
  1600 characters, or without a space among its first 1600 characters, is one piece;
  a longer one is cut at the last space among its first 1600 characters, the text before the
  space is a piece and the loop goes on with the text after it. The loop returns for every
  paragraph; its pieces, joined by single spaces (the spaces dropped at the cuts), give the
  paragraph back; every piece but the last is shorter than 1600 characters; the last is at
  most 1600 characters long or has no space among its first 1600 characters.
\<close>

theorem paragraphs_cut_at_last_space:
  "((\<forall>k. \<not> blank_at t k) \<longrightarrow> re_split_blank [] t = [t])
   \<and> (blank_at t k \<and> (\<forall>j < k. \<not> blank_at t j) \<longrightarrow>
        (\<exists>m. m < length (takeWhile py_isspace (drop (Suc k) t))
           \<and> takeWhile py_isspace (drop (Suc k) t) ! m = CHR 0x0A
           \<and> CHR 0x0A \<notin> set (drop (Suc m) (takeWhile py_isspace (drop (Suc k) t)))
           \<and> re_split_blank [] t = take k t # re_split_blank [] (drop (k + m + 2) t)))
   \<and> split_paragraphs raw
       = (if \<exists>k. blank_at (strip raw) k then re_split_blank [] (strip raw) else [raw])
   \<and> (p_text pl \<noteq> [] \<longrightarrow>
        (\<exists>groups. list_all2 (\<lambda>para g. chunk_while para [] = Some g)
                     (filter (\<lambda>p. p \<noteq> []) (map strip (split_paragraphs (p_text pl)))) groups
           \<and> make_pdf_story pl
               = Some ([Heading1 (if p_title pl = [] then ''(No title)'' else p_title pl),
                        Paragraph (p_url pl), Spacer 15, Spacer 10, Heading2 ''Page Text'']
                       @ concat (map (\<lambda>piece. [Paragraph piece, Spacer 5]) (concat groups)))))
   \<and> chunk_while [] acc = Some acc
   \<and> (para \<noteq> [] \<and> (length para \<le> 1600 \<or> CHR '' '' \<notin> set (take 1600 para)) \<longrightarrow>
        chunk_while para acc = Some (acc @ [para]))
   \<and> (1600 < length para \<and> i < 1600 \<and> para ! i = CHR '' ''
        \<and> (\<forall>j. i < j \<and> j < 1600 \<longrightarrow> para ! j \<noteq> CHR '' '') \<longrightarrow>
        chunk_while para acc = chunk_while (drop (Suc i) para) (acc @ [take i para]))
   \<and> (\<exists>pieces. chunk_while para [] = Some pieces
        \<and> join '' '' pieces = para
        \<and> (\<forall>p \<in> set (butlast pieces). length p < 1600)
        \<and> (pieces \<noteq> [] \<longrightarrow>
             length (last pieces) \<le> 1600 \<or> CHR '' '' \<notin> set (take 1600 (last pieces))))"
proof (intro conjI impI)
  assume "\<forall>k. \<not> blank_at t k"
  from re_split_none[OF this, of "[]"] show "re_split_blank [] t = [t]" by simp
next
  assume "blank_at t k \<and> (\<forall>j < k. \<not> blank_at t j)"
  then have b: "blank_at t k" and l: "\<forall>j < k. \<not> blank_at t j" by simp_all
  from re_split_first[OF b l, of "[]"]
  show "\<exists>m. m < length (takeWhile py_isspace (drop (Suc k) t))
           \<and> takeWhile py_isspace (drop (Suc k) t) ! m = CHR 0x0A
           \<and> CHR 0x0A \<notin> set (drop (Suc m) (takeWhile py_isspace (drop (Suc k) t)))
           \<and> re_split_blank [] t = take k t # re_split_blank [] (drop (k + m + 2) t)"
    by simp
next
  show "split_paragraphs raw
       = (if \<exists>k. blank_at (strip raw) k then re_split_blank [] (strip raw) else [raw])"
    by (rule split_paragraphs_blank)
next
  assume ne: "p_text pl \<noteq> []"
  from chunk_paragraphs_groups[of "split_paragraphs (p_text pl)" "[]"] obtain groups where
    g: "list_all2 (\<lambda>para g. chunk_while para [] = Some g)
          (filter (\<lambda>p. p \<noteq> []) (map strip (split_paragraphs (p_text pl)))) groups"
    and c: "chunk_paragraphs (split_paragraphs (p_text pl)) [] = Some (concat groups)"
    by auto
  from ne c have "make_pdf_story pl
      = Some ([Heading1 (if p_title pl = [] then ''(No title)'' else p_title pl),
               Paragraph (p_url pl), Spacer 15, Spacer 10, Heading2 ''Page Text'']
              @ concat (map (\<lambda>piece. [Paragraph piece, Spacer 5]) (concat groups)))"
    by (simp add: make_pdf_story_def)
  with g show "\<exists>groups. list_all2 (\<lambda>para g. chunk_while para [] = Some g)
                     (filter (\<lambda>p. p \<noteq> []) (map strip (split_paragraphs (p_text pl)))) groups
           \<and> make_pdf_story pl
               = Some ([Heading1 (if p_title pl = [] then ''(No title)'' else p_title pl),
                        Paragraph (p_url pl), Spacer 15, Spacer 10, Heading2 ''Page Text'']
                       @ concat (map (\<lambda>piece. [Paragraph piece, Spacer 5]) (concat groups)))"
    by blast
next
  show "chunk_while [] acc = Some acc" by (simp add: chunk_while.simps)
next
  assume a: "para \<noteq> [] \<and> (length para \<le> 1600 \<or> CHR '' '' \<notin> set (take 1600 para))"
  then have "chunk_step para = (para, [])" by (intro chunk_step_whole) (simp add: CHUNK_def)
  with a show "chunk_while para acc = Some (acc @ [para])"
    by (subst chunk_while.simps, simp, subst chunk_while.simps, simp)
next
  assume a: "1600 < length para \<and> i < 1600 \<and> para ! i = CHR '' ''
        \<and> (\<forall>j. i < j \<and> j < 1600 \<longrightarrow> para ! j \<noteq> CHR '' '')"
  then have "chunk_step para = (take i para, drop (Suc i) para)"
    by (intro chunk_step_cut) (simp_all add: CHUNK_def)
  moreover from a have "para \<noteq> []" by auto
  ultimately show "chunk_while para acc = chunk_while (drop (Suc i) para) (acc @ [take i para])"
    by (subst chunk_while.simps) simp
next
  from chunk_while_spec[of para "[]"]
  show "\<exists>pieces. chunk_while para [] = Some pieces
        \<and> join '' '' pieces = para
        \<and> (\<forall>p \<in> set (butlast pieces). length p < 1600)
        \<and> (pieces \<noteq> [] \<longrightarrow>
             length (last pieces) \<le> 1600 \<or> CHR '' '' \<notin> set (take 1600 (last pieces)))"
    by (auto simp: CHUNK_def)
qed

lemma split_example:
  "blank_at [CHR ''a'', CHR 0x0A, CHR '' '', CHR 0x0A, CHR ''b''] 1"
  "\<not> blank_at [CHR ''a'', CHR 0x0A, CHR '' '', CHR 0x0A, CHR ''b''] 0"
  "re_split_blank [] [CHR ''a'', CHR 0x0A, CHR '' '', CHR 0x0A, CHR ''b''] = [''a'', ''b'']"
  "split_paragraphs [CHR ''a'', CHR 0x0A, CHR '' '', CHR 0x0A, CHR ''b''] = [''a'', ''b'']"
  by code_simp+

theorem paragraphs_cut_at_last_space_witness:
  "blank_at [CHR ''a'', CHR 0x0A, CHR '' '', CHR 0x0A, CHR ''b''] 1
   \<and> \<not> blank_at [CHR ''a'', CHR 0x0A, CHR '' '', CHR 0x0A, CHR ''b''] 0
   \<and> re_split_blank [] [CHR ''a'', CHR 0x0A, CHR '' '', CHR 0x0A, CHR ''b''] = [''a'', ''b'']
   \<and> split_paragraphs [CHR ''a'', CHR 0x0A, CHR '' '', CHR 0x0A, CHR ''b''] = [''a'', ''b'']
   \<and> (1600::nat) < length (CHR ''a'' # CHR '' '' # replicate 1600 (CHR ''b''))
   \<and> (CHR ''a'' # CHR '' '' # replicate 1600 (CHR ''b'')) ! 1 = CHR '' ''
   \<and> chunk_while (CHR ''a'' # CHR '' '' # replicate 1600 (CHR ''b'')) []
       = chunk_while (replicate 1600 (CHR ''b'')) [''a'']
   \<and> chunk_while (CHR ''a'' # CHR '' '' # replicate 1600 (CHR ''b'')) []
       = Some [''a'', replicate 1600 (CHR ''b'')]
   \<and> join '' '' [''a'', replicate 1600 (CHR ''b'')] = CHR ''a'' # CHR '' '' # replicate 1600 (CHR ''b'')
   \<and> length ''a'' < (1600::nat)
   \<and> length (replicate 1600 (CHR ''b'')) \<le> 1600"
proof -
  have nospace: "\<forall>j. 1 < j \<and> j < 1600 \<longrightarrow>
      (CHR ''a'' # CHR '' '' # replicate 1600 (CHR ''b'')) ! j \<noteq> CHR '' ''"
  proof (intro allI impI)
    fix j :: nat assume "1 < j \<and> j < 1600"
    then obtain i where "j = Suc (Suc i)" "i < 1600"
      by (cases j; cases "j - 1") auto
    then show "(CHR ''a'' # CHR '' '' # replicate 1600 (CHR ''b'')) ! j \<noteq> CHR '' ''" by simp
  qed
  from paragraphs_cut_at_last_space[of "[CHR ''a'', CHR 0x0A, CHR '' '', CHR 0x0A, CHR ''b'']" 1
      "[CHR ''a'', CHR 0x0A, CHR '' '', CHR 0x0A, CHR ''b'']"
      "\<lparr>p_url = [], p_title = [], p_meta = [], p_text = [], p_outgoing_links = []\<rparr>" "[]"
      "CHR ''a'' # CHR '' '' # replicate 1600 (CHR ''b'')" 1]
  have "1600 < length (CHR ''a'' # CHR '' '' # replicate 1600 (CHR ''b'')) \<and> (1::nat) < 1600
        \<and> (CHR ''a'' # CHR '' '' # replicate 1600 (CHR ''b'')) ! 1 = CHR '' ''
        \<and> (\<forall>j. 1 < j \<and> j < 1600 \<longrightarrow>
              (CHR ''a'' # CHR '' '' # replicate 1600 (CHR ''b'')) ! j \<noteq> CHR '' '') \<longrightarrow>
        chunk_while (CHR ''a'' # CHR '' '' # replicate 1600 (CHR ''b'')) []
          = chunk_while (drop (Suc 1) (CHR ''a'' # CHR '' '' # replicate 1600 (CHR ''b'')))
              ([] @ [take 1 (CHR ''a'' # CHR '' '' # replicate 1600 (CHR ''b''))])"
    by blast
  with nospace have "chunk_while (CHR ''a'' # CHR '' '' # replicate 1600 (CHR ''b'')) []
       = chunk_while (replicate 1600 (CHR ''b'')) [''a'']"
    by simp
  with split_example chunk_while_example show ?thesis by simp
qed

text \<open>
  The claim as stated fails: the plain concatenation of the pieces of a 1602-character
  paragraph has lost the space at the cut.
\<close>

theorem chunks_concat_counterexample:
  "chunk_while (CHR ''a'' # CHR '' '' # replicate 1600 (CHR ''b'')) []
     = Some [''a'', replicate 1600 (CHR ''b'')]
   \<and> concat [''a'', replicate 1600 (CHR ''b'')] \<noteq> CHR ''a'' # CHR '' '' # replicate 1600 (CHR ''b'')"
proof -
  have "length (concat [''a'', replicate 1600 (CHR ''b'')])
      \<noteq> length (CHR ''a'' # CHR '' '' # replicate 1600 (CHR ''b''))"
    by simp
  then have "concat [''a'', replicate 1600 (CHR ''b'')] \<noteq> CHR ''a'' # CHR '' '' # replicate 1600 (CHR ''b'')"
    by metis
  with chunk_while_example show ?thesis by simp
qed

section \<open>Query strings survive encoding\<close>

lemma always_safe_facts:
  "always_safe c \<Longrightarrow> c \<noteq> CHR ''%'' \<and> c \<noteq> CHR ''+'' \<and> c \<noteq> CHR ''&'' \<and> c \<noteq> CHR ''=''
     \<and> c \<noteq> CHR ''#'' \<and> c \<noteq> CHR '':'' \<and> c \<noteq> CHR ''?'' \<and> \<not> unsafe_byte c \<and> c \<noteq> CHR '' ''"
  by (auto simp: always_safe_def is_alnum_def is_upper_def is_lower_def is_digit_def py_ord_def
      unsafe_byte_def)

lemma always_safe_ascii: "always_safe c \<Longrightarrow> is_ascii c"
  by (auto simp: always_safe_def is_alnum_def is_upper_def is_lower_def is_digit_def py_ord_def
      is_ascii_def)

lemma hexval_hexdig: "k < 16 \<Longrightarrow> hexval (hexdig k) = Some k"
proof -
  assume "k < 16"
  then have "k = 0 \<or> k = 1 \<or> k = 2 \<or> k = 3 \<or> k = 4 \<or> k = 5 \<or> k = 6 \<or> k = 7
    \<or> k = 8 \<or> k = 9 \<or> k = 10 \<or> k = 11 \<or> k = 12 \<or> k = 13 \<or> k = 14 \<or> k = 15"
    by arith
  then show ?thesis
    by (elim disjE) (simp_all add: hexval_def hexdig_def is_digit_def py_ord_def)
qed

lemma hexdig_not_plus: "k < 16 \<Longrightarrow> hexdig k \<noteq> CHR ''+''"
  using hexval_hexdig[of k] by (auto simp: hexval_def is_digit_def py_ord_def split: if_splits)

lemma unquote_plain:
  assumes "c \<noteq> CHR ''%''"
  shows "unquote_to_bytes (c # t) = c # unquote_to_bytes t"
proof (cases t)
  case Nil then show ?thesis by simp
next
  case (Cons h1 t1)
  with assms show ?thesis
    by (cases t1) (auto split: option.splits)
qed

lemma unquote_escape:
  "hexval h1 = Some a \<Longrightarrow> hexval h2 = Some b \<Longrightarrow>
   unquote_to_bytes (CHR ''%'' # h1 # h2 # t) = char_of (16 * a + b) # unquote_to_bytes t"
  by simp

lemma unquote_no_escape: "CHR ''%'' \<notin> set s \<Longrightarrow> unquote_to_bytes s = s"
proof (induction s)
  case Nil show ?case by simp
next
  case (Cons a s)
  then have a: "a \<noteq> CHR ''%''" and s: "unquote_to_bytes s = s" by auto
  show ?case unfolding unquote_plain[OF a] s by (rule refl)
qed

lemma unquote_quote_byte:
  "unquote_to_bytes (map (\<lambda>c. if c = CHR ''+'' then CHR '' '' else c) (quote_byte c) @ t)
     = c # unquote_to_bytes t"
proof -
  consider (safe) "always_safe c" | (space) "\<not> always_safe c" "c = CHR '' ''"
    | (esc) "\<not> always_safe c" "c \<noteq> CHR '' ''" by blast
  then show ?thesis
  proof cases
    case safe
    with always_safe_facts[OF safe] show ?thesis by (simp add: quote_byte_def unquote_plain)
  next
    case space
    then show ?thesis by (simp add: quote_byte_def unquote_plain)
  next
    case esc
    have lt: "py_ord c div 16 < 16" "py_ord c mod 16 < 16"
      by (simp_all add: py_ord_def less_mult_imp_div_less)
    have "char_of (16 * (py_ord c div 16) + py_ord c mod 16) = c"
      by (simp add: py_ord_def)
    with esc lt show ?thesis
      by (simp add: quote_byte_def hexdig_not_plus hexval_hexdig)
  qed
qed

lemma unquote_bytes_quote_bytes:
  "unquote_to_bytes (map (\<lambda>c. if c = CHR ''+'' then CHR '' '' else c) (quote_bytes s)) = s"
  unfolding quote_bytes_def
proof (induction s)
  case Nil show ?case by simp
next
  case (Cons c s)
  then show ?case by (simp add: unquote_quote_byte)
qed

lemma always_safe_hexdig: "k < 16 \<Longrightarrow> always_safe (hexdig k)"
proof -
  assume "k < 16"
  then have "k = 0 \<or> k = 1 \<or> k = 2 \<or> k = 3 \<or> k = 4 \<or> k = 5 \<or> k = 6 \<or> k = 7
    \<or> k = 8 \<or> k = 9 \<or> k = 10 \<or> k = 11 \<or> k = 12 \<or> k = 13 \<or> k = 14 \<or> k = 15"
    by arith
  then show ?thesis
    by (elim disjE)
       (simp_all add: always_safe_def hexdig_def is_alnum_def is_digit_def is_upper_def
          is_lower_def py_ord_def)
qed

lemma quote_byte_chars:
  "x \<in> set (quote_byte c) \<Longrightarrow> always_safe x \<or> x = CHR ''+'' \<or> x = CHR ''%''"
  by (auto simp: quote_byte_def always_safe_hexdig less_mult_imp_div_less py_ord_def
      split: if_splits)

lemma quote_bytes_chars:
  "x \<in> set (quote_bytes s) \<Longrightarrow> always_safe x \<or> x = CHR ''+'' \<or> x = CHR ''%''"
  by (auto simp: quote_bytes_def dest: quote_byte_chars)

lemma quote_bytes_no_sep: "CHR ''&'' \<notin> set (quote_bytes s)" "CHR ''='' \<notin> set (quote_bytes s)"
  using quote_bytes_chars[of "CHR ''&''" s] quote_bytes_chars[of "CHR ''=''" s] always_safe_facts
  by auto

lemma quote_bytes_ascii: "list_all is_ascii (quote_bytes s)"
proof -
  have "is_ascii x" if "x \<in> set (quote_bytes s)" for x
    using quote_bytes_chars[OF that] always_safe_ascii[of x]
    by (auto simp: is_ascii_def py_ord_def)
  then show ?thesis by (simp add: list_all_iff)
qed

subsection \<open>Decoding what was encoded\<close>

lemma utf8_scan_parts: "concat (map snd (utf8_scan s)) = s"
  by (induction s rule: utf8_scan.induct) simp_all

lemma encodable_fixed: "encodable s \<Longrightarrow> utf8_replace s = s"
proof -
  assume "encodable s"
  then have "map (\<lambda>(ok, part). if ok then part else [CHR 0xEF, CHR 0xBF, CHR 0xBD]) (utf8_scan s)
      = map snd (utf8_scan s)"
    by (auto simp: encodable_def list_all_iff)
  then have "utf8_replace s = concat (map snd (utf8_scan s))"
    by (simp only: utf8_replace_def)
  then show ?thesis by (simp only: utf8_scan_parts)
qed

lemma ascii_width: "is_ascii c \<Longrightarrow> utf8_width c = 1"
  by (simp add: is_ascii_def utf8_width_def)

lemma ascii_accepted: "is_ascii c \<Longrightarrow> utf8_accepted c bs = 0"
  by (simp add: utf8_accepted_def ascii_width split: list.splits)

lemma ascii_encodable: "list_all is_ascii s \<Longrightarrow> encodable s"
  unfolding encodable_def
  by (induction s) (simp_all add: ascii_width ascii_accepted)

lemma unquote_ascii:
  assumes "list_all is_ascii s"
  shows "unquote s = utf8_replace (unquote_to_bytes s)"
proof (cases "CHR ''%'' \<in> set s")
  case False
  with assms show ?thesis
    by (simp add: unquote_def unquote_no_escape encodable_fixed ascii_encodable)
next
  case True
  then obtain c cs where s: "s = c # cs" by (cases s) auto
  from assms have t: "takeWhile is_ascii cs = cs" and d: "dropWhile is_ascii cs = []"
    by (auto simp: s list_all_iff takeWhile_eq_all_conv dropWhile_eq_Nil_conv)
  from assms have c: "is_ascii c" by (simp add: s)
  have "unquote_parts (c # cs) = utf8_replace (unquote_to_bytes (c # cs))"
    by (subst unquote_parts.simps) (simp only: c t d if_True unquote_parts.simps append_Nil2)
  with True show ?thesis by (simp add: unquote_def s)
qed

lemma unquote_plus_quote_bytes: "unquote_plus (quote_bytes s) = utf8_replace s"
proof -
  have "list_all is_ascii (map (\<lambda>c. if c = CHR ''+'' then CHR '' '' else c) (quote_bytes s))"
    using quote_bytes_ascii[of s] by (auto simp: list_all_iff is_ascii_def py_ord_def)
  from unquote_ascii[OF this] show ?thesis
    by (simp add: unquote_plus_def unquote_bytes_quote_bytes)
qed

lemma split_on_nonempty: "split_on c s \<noteq> []"
  by (induction s) (auto split: list.splits)

lemma split_on_absent: "c \<notin> set x \<Longrightarrow> split_on c x = [x]"
  by (induction x) (auto split: list.splits)

lemma split_on_append: "c \<notin> set x \<Longrightarrow> split_on c (x @ c # rest) = x # split_on c rest"
proof (induction x)
  case Nil
  then show ?case using split_on_nonempty[of c rest] by (auto split: list.splits)
next
  case (Cons a x)
  then show ?case by (auto split: list.splits)
qed

lemma split_on_join:
  "xs \<noteq> [] \<Longrightarrow> \<forall>x \<in> set xs. c \<notin> set x \<Longrightarrow> split_on c (join [c] xs) = xs"
proof (induction "[c]" xs rule: join.induct)
  case 1 then show ?case by simp
next
  case (2 x) then show ?case by (simp add: split_on_absent)
next
  case (3 x y ys)
  then show ?case by (simp add: split_on_append)
qed

lemma join_eq_Nil: "join sep xs = [] \<Longrightarrow> xs = [] \<or> hd xs = []"
  by (induction sep xs rule: join.induct) auto

lemma partition_absent: "c \<notin> set s \<Longrightarrow> partition c s = (s, False, [])"
proof -
  assume a: "c \<notin> set s"
  then have t: "takeWhile (\<lambda>x. x \<noteq> c) s = s" and d: "dropWhile (\<lambda>x. x \<noteq> c) s = []"
    by (auto simp: takeWhile_eq_all_conv dropWhile_eq_Nil_conv)
  show ?thesis unfolding partition_def t d using a by simp
qed

lemma partition_append: "c \<notin> set p \<Longrightarrow> partition c (p @ c # q) = (p, True, q)"
proof -
  assume a: "c \<notin> set p"
  then have "\<forall>x \<in> set p. x \<noteq> c" by auto
  then have t: "takeWhile (\<lambda>x. x \<noteq> c) (p @ c # q) = p"
    and d: "dropWhile (\<lambda>x. x \<noteq> c) (p @ c # q) = c # q"
    by (simp_all add: takeWhile_append2 dropWhile_append2)
  show ?thesis unfolding partition_def t d by simp
qed

lemma encode_pairs_Some:
  "encode_pairs q = Some l \<Longrightarrow>
     l = map (\<lambda>(k, v). quote_bytes k @ ''='' @ quote_bytes v) q
     \<and> (\<forall>(k, v) \<in> set q. encodable k \<and> encodable v)"
proof (induction q arbitrary: l)
  case Nil then show ?case by simp
next
  case (Cons kv q)
  obtain k v where kv: "kv = (k, v)" by (cases kv)
  from Cons.prems obtain l' where
    l': "encode_pairs q = Some l'" and ek: "encodable k" and ev: "encodable v"
    and l: "l = (quote_bytes k @ ''='' @ quote_bytes v) # l'"
    by (auto simp: kv quote_plus_def split: option.splits if_splits)
  from Cons.IH[OF l'] l ek ev show ?case by (simp add: kv)
qed

lemma encode_pairs_encodable:
  "\<forall>(k, v) \<in> set q. encodable k \<and> encodable v \<Longrightarrow>
     encode_pairs q = Some (map (\<lambda>(k, v). quote_bytes k @ ''='' @ quote_bytes v) q)"
  by (induction q) (auto simp: quote_plus_def)

lemma parse_qsl_urlencode:
  assumes "urlencode q = Some e"
  shows "parse_qsl e = q"
proof (cases "q = []")
  case True
  with assms show ?thesis by (auto simp: parse_qsl_def urlencode_def)
next
  case False
  define items where "items = map (\<lambda>(k, v). quote_bytes k @ ''='' @ quote_bytes v) q"
  from assms obtain l where l: "encode_pairs q = Some l" and e: "e = join ''&'' l"
    by (auto simp: urlencode_def)
  from encode_pairs_Some[OF l] have li: "l = items"
    and enc: "\<forall>(k, v) \<in> set q. encodable k \<and> encodable v"
    by (simp_all add: items_def)
  have ne: "items \<noteq> []" using False by (simp add: items_def)
  have nosep: "\<forall>x \<in> set items. CHR ''&'' \<notin> set x"
    using quote_bytes_no_sep(1) by (auto simp: items_def)
  have nonnil: "\<forall>x \<in> set items. x \<noteq> []" by (auto simp: items_def)
  have "hd items \<noteq> []" using ne nonnil by (cases items) auto
  with ne join_eq_Nil[of "''&''" items] have jne: "join ''&'' items \<noteq> []" by auto
  have sp: "split_on CHR ''&'' (join ''&'' items) = items"
    using split_on_join[OF ne nosep] by simp
  have flt: "filter (\<lambda>x. x \<noteq> []) items = items" using nonnil by (simp add: filter_id_conv)
  have dec: "map (\<lambda>nv. (unquote_plus (fst (partition CHR ''='' nv)),
                        unquote_plus (snd (snd (partition CHR ''='' nv))))) items = q"
    unfolding items_def using enc
    by (induction q)
       (auto simp: partition_append quote_bytes_no_sep unquote_plus_quote_bytes encodable_fixed)
  show ?thesis
    using jne unfolding e li by (simp only: parse_qsl_def sp flt dec if_False)
qed

lemma urlencode_chars:
  assumes "urlencode q = Some e" and "x \<in> set e"
  shows "always_safe x \<or> x = CHR ''+'' \<or> x = CHR ''%'' \<or> x = CHR ''='' \<or> x = CHR ''&''"
proof -
  have j: "x \<in> set (join ''&'' xs) \<Longrightarrow> x = CHR ''&'' \<or> (\<exists>y \<in> set xs. x \<in> set y)" for xs
    by (induction "''&''" xs rule: join.induct) auto
  from assms(1) obtain l where l: "encode_pairs q = Some l" and e: "e = join ''&'' l"
    by (auto simp: urlencode_def)
  from encode_pairs_Some[OF l] have li: "l = map (\<lambda>(k, v). quote_bytes k @ ''='' @ quote_bytes v) q"
    by simp
  from j[OF assms(2)[unfolded e]] show ?thesis
    unfolding li by (auto dest: quote_bytes_chars)
qed

lemma urlencode_free:
  assumes "urlencode q = Some e"
  shows "CHR ''#'' \<notin> set e" "CHR '':'' \<notin> set e"
    "CHR ''?'' \<notin> set e" "list_all (\<lambda>c. \<not> unsafe_byte c) e"
proof -
  have u: "\<And>x. x \<in> set e \<Longrightarrow> x \<noteq> CHR ''#'' \<and> x \<noteq> CHR '':'' \<and> x \<noteq> CHR ''?'' \<and> \<not> unsafe_byte x"
    using urlencode_chars[OF assms] always_safe_facts
    by (fastforce simp: unsafe_byte_def py_ord_def)
  show "CHR ''#'' \<notin> set e" "CHR '':'' \<notin> set e" "CHR ''?'' \<notin> set e" using u by blast+
  show "list_all (\<lambda>c. \<not> unsafe_byte c) e" using u by (auto simp: list_all_iff)
qed


section \<open>Splitting a URL that was put together\<close>

lemma scheme_char_facts:
  "scheme_char c \<Longrightarrow> c \<noteq> CHR '':'' \<and> \<not> unsafe_byte c \<and> \<not> c0_or_space c \<and> c \<noteq> CHR ''/''
      \<and> c \<noteq> CHR ''?'' \<and> c \<noteq> CHR ''#''"
  by (auto simp: scheme_char_def is_alnum_def is_upper_def is_lower_def is_digit_def py_ord_def
      unsafe_byte_def c0_or_space_def)

lemma scheme_ok_colon: "scheme_ok s \<Longrightarrow> CHR '':'' \<notin> set s"
  using scheme_char_facts by (auto simp: scheme_ok_def list_all_iff)

lemma takeWhile_stop: "c \<notin> set p \<Longrightarrow> takeWhile (\<lambda>x. x \<noteq> c) (p @ c # q) = p"
proof -
  assume "c \<notin> set p"
  then have "\<forall>x \<in> set p. x \<noteq> c" by auto
  then show ?thesis by (simp add: takeWhile_append2)
qed

lemma scheme_ok_takeWhile:
  "scheme_ok s \<Longrightarrow> takeWhile (\<lambda>c. c \<noteq> CHR '':'') (s @ CHR '':'' # rest) = s"
  using scheme_ok_colon[of s] by (simp add: takeWhile_stop)

lemma scheme_ok_has_scheme: "scheme_ok s \<Longrightarrow> has_scheme (s @ CHR '':'' # rest)"
  by (simp add: has_scheme_def scheme_ok_takeWhile) (simp add: scheme_ok_def)

lemma scheme_ok_lower: "scheme_ok s \<Longrightarrow> py_lower s = s"
  by (simp add: scheme_ok_def py_lower_def lower_char_def list_all_iff map_idI)

lemma has_scheme_prefix:
  assumes "CHR '':'' \<in> set p"
  shows "has_scheme (p @ t) = has_scheme p"
proof -
  from assms have "takeWhile (\<lambda>c. c \<noteq> CHR '':'') (p @ t) = takeWhile (\<lambda>c. c \<noteq> CHR '':'') p"
    by (simp add: takeWhile_append1)
  with assms show ?thesis by (simp add: has_scheme_def)
qed

lemma has_scheme_tail:
  assumes "CHR '':'' \<notin> set p" and "t \<noteq> []" and "hd t = CHR ''?'' \<or> hd t = CHR ''#'' \<or> hd t = CHR ''/''"
  shows "\<not> has_scheme (p @ t)"
proof (cases "CHR '':'' \<in> set t")
  case False
  with assms(1) show ?thesis by (simp add: has_scheme_def)
next
  case True
  from assms(2) obtain h t' where t: "t = h # t'" by (cases t) auto
  with assms(3) have h: "h = CHR ''?'' \<or> h = CHR ''#'' \<or> h = CHR ''/''" by simp
  then have hc: "h \<noteq> CHR '':''" by auto
  have "\<forall>x \<in> set p. x \<noteq> CHR '':''" using assms(1) by auto
  then have tw: "takeWhile (\<lambda>c. c \<noteq> CHR '':'') (p @ t) = p @ h # takeWhile (\<lambda>c. c \<noteq> CHR '':'') t'"
    using hc by (simp add: t takeWhile_append2)
  have "\<not> scheme_char h" using h scheme_char_facts[of h] by auto
  then show ?thesis by (simp add: has_scheme_def tw)
qed

lemma delim_tail:
  assumes "list_all (\<lambda>c. \<not> netloc_delim c) n" and "t = [] \<or> netloc_delim (hd t)"
  shows "takeWhile (\<lambda>c. \<not> netloc_delim c) (n @ t) = n"
    and "dropWhile (\<lambda>c. \<not> netloc_delim c) (n @ t) = t"
proof -
  from assms(1) have a: "\<forall>x \<in> set n. \<not> netloc_delim x" by (simp add: list_all_iff)
  from assms(2) have "takeWhile (\<lambda>c. \<not> netloc_delim c) t = []" by (cases t) auto
  with a show "takeWhile (\<lambda>c. \<not> netloc_delim c) (n @ t) = n" by (simp add: takeWhile_append2)
  from assms(2) have "dropWhile (\<lambda>c. \<not> netloc_delim c) t = t" by (cases t) auto
  with a show "dropWhile (\<lambda>c. \<not> netloc_delim c) (n @ t) = t" by (simp add: dropWhile_append2)
qed

lemma take2_append:
  assumes "take 2 p \<noteq> ''//''" and "t = [] \<or> hd t = CHR ''?''"
  shows "take 2 (p @ t) \<noteq> ''//''"
proof (cases p)
  case Nil
  with assms(2) show ?thesis by (cases t) auto
next
  case (Cons a p')
  show ?thesis
  proof (cases p')
    case Nil
    with Cons assms(2) show ?thesis by (cases t) auto
  next
    case (Cons b p'')
    with \<open>p = a # p'\<close> assms(1) show ?thesis by simp
  qed
qed

lemma urlsplit_build:
  assumes sch: "s = [] \<or> scheme_ok s"
    and n_ok: "list_all (\<lambda>c. \<not> unsafe_byte c \<and> \<not> netloc_delim c) n"
    and p_ok: "list_all (\<lambda>c. \<not> unsafe_byte c \<and> c \<noteq> CHR ''?'' \<and> c \<noteq> CHR ''#'') p"
    and q_ok: "list_all (\<lambda>c. \<not> unsafe_byte c \<and> c \<noteq> CHR ''#'' \<and> c \<noteq> CHR '':'') q"
    and sl_ok: "sl \<Longrightarrow> (p = [] \<or> hd p = CHR ''/'') \<and> netloc_accepted L n"
    and nosl: "\<not> sl \<Longrightarrow> n = [] \<and> take 2 p \<noteq> ''//''"
    and nosch: "s = [] \<Longrightarrow> \<not> sl \<Longrightarrow> \<not> has_scheme p \<and> (p = [] \<or> \<not> c0_or_space (hd p))"
  shows "urlsplit L ((if s = [] then [] else s @ '':'') @ (if sl then ''//'' @ n else []) @ p
                     @ (if q = [] then [] else ''?'' @ q))
         = Some \<lparr>sp_scheme = s, sp_netloc = n, sp_path = p, sp_query = q, sp_fragment = []\<rparr>"
proof -
  define qpart where "qpart = (if q = [] then [] else ''?'' @ q)"
  define tail where "tail = p @ qpart"
  define body where "body = (if sl then ''//'' @ n else []) @ tail"
  define out where "out = (if s = [] then [] else s @ '':'') @ body"
  have qpart_hd: "qpart = [] \<or> hd qpart = CHR ''?''" by (simp add: qpart_def)
  have tail_hd: "sl \<Longrightarrow> tail = [] \<or> netloc_delim (hd tail)"
    using sl_ok qpart_hd by (cases p) (auto simp: tail_def netloc_delim_def)
  have s_clean: "list_all (\<lambda>c. \<not> unsafe_byte c) s"
    using sch scheme_char_facts by (auto simp: scheme_ok_def list_all_iff)
  have clean: "list_all (\<lambda>c. \<not> unsafe_byte c) out"
    using s_clean n_ok p_ok q_ok
    by (auto simp: out_def body_def tail_def qpart_def list_all_iff unsafe_byte_def py_ord_def)
  then have f1: "filter (\<lambda>c. \<not> unsafe_byte c) out = out"
    by (simp add: list_all_iff filter_id_conv)
  have hd_ok: "out = [] \<or> \<not> c0_or_space (hd out)"
  proof (cases "s = []")
    case False
    with sch have "scheme_ok s" by simp
    then have "\<not> c0_or_space (hd s)" using scheme_char_facts[of "hd s"]
      by (cases s) (auto simp: scheme_ok_def)
    with False show ?thesis by (simp add: out_def)
  next
    case True
    show ?thesis
    proof (cases sl)
      case True
      with \<open>s = []\<close> show ?thesis by (simp add: out_def body_def c0_or_space_def py_ord_def)
    next
      case False
      from nosch[OF \<open>s = []\<close> False] qpart_hd \<open>s = []\<close> False show ?thesis
        by (cases p) (auto simp: out_def body_def tail_def c0_or_space_def py_ord_def)
    qed
  qed
  then have f2: "dropWhile c0_or_space out = out" by (cases out) auto
  have hs: "has_scheme out = (s \<noteq> [])"
  proof (cases "s = []")
    case False
    with sch show ?thesis by (simp add: out_def scheme_ok_has_scheme)
  next
    case True
    have "\<not> has_scheme out"
    proof (cases sl)
      case True
      have "out = [] @ (''/'' @ (''/'' @ n @ tail))" using True \<open>s = []\<close> by (simp add: out_def body_def)
      moreover have "\<not> has_scheme ([] @ (''/'' @ (''/'' @ n @ tail)))"
      proof (cases "CHR '':'' \<in> set (''/'' @ (''/'' @ n @ tail))")
        case False then show ?thesis by (simp add: has_scheme_def)
      next
        case True
        then show ?thesis
          by (simp add: has_scheme_def is_upper_def is_lower_def py_ord_def)
      qed
      ultimately show ?thesis by simp
    next
      case False
      from nosch[OF \<open>s = []\<close> False] have np: "\<not> has_scheme p" by simp
      have o: "out = p @ qpart" using False \<open>s = []\<close> by (simp add: out_def body_def tail_def)
      show ?thesis
      proof (cases "CHR '':'' \<in> set p")
        case True
        with np show ?thesis by (simp add: o has_scheme_prefix)
      next
        case False
        show ?thesis
        proof (cases "q = []")
          case True
          with np show ?thesis by (simp add: o qpart_def)
        next
          case qne: False
          then show ?thesis unfolding o
            by (intro has_scheme_tail[OF False]) (simp_all add: qpart_def)
        qed
      qed
    qed
    with True show ?thesis by simp
  qed
  have u2: "(if has_scheme out then drop (Suc (length (takeWhile (\<lambda>c. c \<noteq> CHR '':'') out))) out else out) = body"
  proof (cases "s = []")
    case True
    with hs show ?thesis by (simp add: out_def)
  next
    case False
    with sch have ok: "scheme_ok s" by simp
    have "takeWhile (\<lambda>c. c \<noteq> CHR '':'') out = s"
      using False scheme_ok_takeWhile[OF ok] by (simp add: out_def)
    with hs False show ?thesis by (simp add: out_def)
  qed
  have lw: "(if has_scheme out then py_lower (takeWhile (\<lambda>c. c \<noteq> CHR '':'') out) else []) = s"
  proof (cases "s = []")
    case True
    with hs show ?thesis by simp
  next
    case False
    with sch have ok: "scheme_ok s" by simp
    have "takeWhile (\<lambda>c. c \<noteq> CHR '':'') out = s"
      using False scheme_ok_takeWhile[OF ok] by (simp add: out_def)
    with hs False scheme_ok_lower[OF ok] show ?thesis by simp
  qed
  have sl_eq: "(take 2 body = ''//'') = sl"
  proof (cases sl)
    case True then show ?thesis by (simp add: body_def)
  next
    case False
    from nosl[OF False] have "take 2 (p @ qpart) \<noteq> ''//''"
      using take2_append[OF _ qpart_hd] by simp
    with False show ?thesis by (simp add: body_def tail_def)
  qed
  have n_nodelim: "list_all (\<lambda>c. \<not> netloc_delim c) n" using n_ok by (simp add: list_all_iff)
  have nl: "(if sl then takeWhile (\<lambda>c. \<not> netloc_delim c) (drop 2 body) else []) = n"
  proof (cases sl)
    case True
    then have "drop 2 body = n @ tail" by (simp add: body_def)
    with True delim_tail(1)[OF n_nodelim tail_hd[OF True]] show ?thesis by simp
  next
    case False
    with nosl show ?thesis by simp
  qed
  have u3: "(if sl then dropWhile (\<lambda>c. \<not> netloc_delim c) (drop 2 body) else body) = tail"
  proof (cases sl)
    case True
    then have "drop 2 body = n @ tail" by (simp add: body_def)
    with True delim_tail(2)[OF n_nodelim tail_hd[OF True]] show ?thesis by simp
  next
    case False
    then show ?thesis by (simp add: body_def)
  qed
  have nofrag: "CHR ''#'' \<notin> set tail"
    using p_ok q_ok by (auto simp: tail_def qpart_def list_all_iff)
  have pf: "partition CHR ''#'' tail = (tail, False, [])" by (rule partition_absent[OF nofrag])
  have noq: "CHR ''?'' \<notin> set p" using p_ok by (auto simp: list_all_iff)
  have pq: "partition CHR ''?'' tail = (p, q \<noteq> [], q)"
  proof (cases "q = []")
    case True
    with partition_absent[OF noq] show ?thesis by (simp add: tail_def qpart_def)
  next
    case False
    with partition_append[OF noq, of q] show ?thesis by (simp add: tail_def qpart_def)
  qed
  have acc: "sl \<longrightarrow> netloc_accepted L n" using sl_ok by simp
  have "urlsplit L out
      = Some \<lparr>sp_scheme = s, sp_netloc = n, sp_path = p, sp_query = q, sp_fragment = []\<rparr>"
    unfolding urlsplit_def Let_def f1 f2 u2 lw sl_eq nl u3 pf pq
    using acc by (simp add: pq)
  then show ?thesis by (simp add: out_def body_def tail_def qpart_def)
qed

lemma lower_char_upper: "is_upper c \<Longrightarrow> py_ord (lower_char c) = py_ord c + 32"
  by (simp add: lower_char_def is_upper_def py_ord_def)

lemma lower_char_other: "\<not> is_upper c \<Longrightarrow> lower_char c = c"
  by (simp add: lower_char_def)

lemma lower_char_not_upper: "\<not> is_upper (lower_char c)"
proof (cases "is_upper c")
  case True
  from lower_char_upper[OF True] True show ?thesis by (simp add: is_upper_def)
next
  case False
  then show ?thesis by (simp add: lower_char_other)
qed

lemma lower_char_letter: "is_upper c \<or> is_lower c \<Longrightarrow> is_lower (lower_char c)"
proof (cases "is_upper c")
  case True
  from lower_char_upper[OF True] True show ?thesis by (simp add: is_upper_def is_lower_def)
next
  case False
  assume "is_upper c \<or> is_lower c"
  with False show ?thesis by (simp add: lower_char_other)
qed

lemma lower_char_scheme: "scheme_char c \<Longrightarrow> scheme_char (lower_char c)"
proof (cases "is_upper c")
  case True
  then have "is_lower (lower_char c)" by (simp add: lower_char_letter)
  then show ?thesis by (simp add: scheme_char_def is_alnum_def)
next
  case False
  assume "scheme_char c"
  with False show ?thesis by (simp add: lower_char_other)
qed

lemma has_scheme_scheme_ok:
  assumes "has_scheme url"
  shows "scheme_ok (py_lower (takeWhile (\<lambda>c. c \<noteq> CHR '':'') url))"
proof -
  define pre where "pre = takeWhile (\<lambda>c. c \<noteq> CHR '':'') url"
  from assms have ne: "pre \<noteq> []" and h: "is_upper (hd pre) \<or> is_lower (hd pre)"
    and a: "list_all scheme_char pre"
    by (simp_all add: has_scheme_def Let_def pre_def)
  from ne obtain x xs where p: "pre = x # xs" by (cases pre) auto
  have 1: "py_lower pre \<noteq> []" using ne by (simp add: py_lower_def)
  have 2: "is_lower (hd (py_lower pre))" using h by (simp add: p py_lower_def lower_char_letter)
  have 3: "list_all scheme_char (py_lower pre)"
    using a by (simp add: py_lower_def list_all_iff lower_char_scheme)
  have 4: "list_all (\<lambda>c. \<not> is_upper c) (py_lower pre)"
    by (simp add: py_lower_def list_all_iff lower_char_not_upper)
  show ?thesis unfolding scheme_ok_def pre_def[symmetric] using 1 2 3 4 by simp
qed

lemma path_prefix:
  fixes url3 :: string
  defines "pth \<equiv> takeWhile (\<lambda>x. x \<noteq> CHR ''?'') (takeWhile (\<lambda>x. x \<noteq> CHR ''#'') url3)"
  shows "\<exists>t. url3 = pth @ t \<and> (t = [] \<or> hd t = CHR ''?'' \<or> hd t = CHR ''#'')"
proof -
  define a where "a = dropWhile (\<lambda>x. x \<noteq> CHR ''?'') (takeWhile (\<lambda>x. x \<noteq> CHR ''#'') url3)"
  define b where "b = dropWhile (\<lambda>x. x \<noteq> CHR ''#'') url3"
  have "url3 = (pth @ a) @ b" by (simp add: pth_def a_def b_def)
  moreover have "a = [] \<or> hd a = CHR ''?''"
    using hd_dropWhile[of "\<lambda>x. x \<noteq> CHR ''?''" "takeWhile (\<lambda>x. x \<noteq> CHR ''#'') url3"]
    by (auto simp: a_def)
  moreover have "b = [] \<or> hd b = CHR ''#''"
    using hd_dropWhile[of "\<lambda>x. x \<noteq> CHR ''#''" url3] by (auto simp: b_def)
  ultimately show ?thesis
    by (intro exI[of _ "a @ b"]) (cases a, auto)
qed

lemma path_chars:
  "x \<in> set (takeWhile (\<lambda>x. x \<noteq> CHR ''?'') (takeWhile (\<lambda>x. x \<noteq> CHR ''#'') url3))
   \<Longrightarrow> x \<in> set url3 \<and> x \<noteq> CHR ''?'' \<and> x \<noteq> CHR ''#''"
  using set_takeWhileD[of x "\<lambda>x. x \<noteq> CHR ''?''" "takeWhile (\<lambda>x. x \<noteq> CHR ''#'') url3"]
    set_takeWhileD[of x "\<lambda>x. x \<noteq> CHR ''#''" url3]
  by blast

lemma urlsplit_split_ok:
  assumes "urlsplit L u = Some r"
  shows "split_ok L r"
proof -
  define url1 where "url1 = filter (\<lambda>c. \<not> unsafe_byte c) (dropWhile c0_or_space u)"
  define pre where "pre = takeWhile (\<lambda>c. c \<noteq> CHR '':'') url1"
  define url2 where "url2 = (if has_scheme url1 then drop (Suc (length pre)) url1 else url1)"
  define sl where "sl = (take 2 url2 = ''//'')"
  define nl where "nl = (if sl then takeWhile (\<lambda>c. \<not> netloc_delim c) (drop 2 url2) else [])"
  define url3 where "url3 = (if sl then dropWhile (\<lambda>c. \<not> netloc_delim c) (drop 2 url2) else url2)"
  define pth where "pth = takeWhile (\<lambda>x. x \<noteq> CHR ''?'') (takeWhile (\<lambda>x. x \<noteq> CHR ''#'') url3)"
  define frag where "frag = drop 1 (dropWhile (\<lambda>x. x \<noteq> CHR ''#'') url3)"
  define qry where "qry = drop 1 (dropWhile (\<lambda>x. x \<noteq> CHR ''?'') (takeWhile (\<lambda>x. x \<noteq> CHR ''#'') url3))"
  have eq: "urlsplit L u =
      (if sl \<and> \<not> netloc_accepted L nl then None
       else Some \<lparr>sp_scheme = (if has_scheme url1 then py_lower pre else []), sp_netloc = nl,
                  sp_path = pth, sp_query = qry, sp_fragment = frag\<rparr>)"
    unfolding urlsplit_def Let_def partition_def case_prod_beta fst_conv snd_conv
      url1_def pre_def url2_def sl_def nl_def url3_def pth_def frag_def qry_def
    by (rule refl)
  from assms eq have acc: "sl \<longrightarrow> netloc_accepted L nl"
    by (cases "sl \<and> \<not> netloc_accepted L nl") auto
  from assms eq acc have r: "sp_scheme r = (if has_scheme url1 then py_lower pre else [])"
           "sp_netloc r = nl" "sp_path r = pth"
    by (cases "sl \<and> \<not> netloc_accepted L nl"; auto)+
  have clean1: "\<forall>x \<in> set url1. \<not> unsafe_byte x" by (simp add: url1_def)
  have hd1: "url1 = [] \<or> \<not> c0_or_space (hd url1)"
  proof -
    have d: "dropWhile c0_or_space u = [] \<or> \<not> c0_or_space (hd (dropWhile c0_or_space u))"
      using hd_dropWhile[of c0_or_space u] by auto
    show ?thesis
    proof (cases "dropWhile c0_or_space u")
      case Nil then show ?thesis unfolding url1_def Nil by simp
    next
      case (Cons a w)
      with d have "\<not> c0_or_space a" by simp
      then have "\<not> unsafe_byte a" by (auto simp: c0_or_space_def unsafe_byte_def)
      with \<open>\<not> c0_or_space a\<close> show ?thesis unfolding url1_def Cons by simp
    qed
  qed
  have sub2: "set url2 \<subseteq> set url1" by (auto simp: url2_def dest: in_set_dropD)
  have sub3: "set url3 \<subseteq> set url1"
    using sub2 by (auto simp: url3_def dest!: set_dropWhileD in_set_dropD)
  have c1: "sp_scheme r = [] \<or> scheme_ok (sp_scheme r)"
    by (simp add: r pre_def has_scheme_scheme_ok)
  have c2: "list_all (\<lambda>c. \<not> unsafe_byte c \<and> \<not> netloc_delim c) (sp_netloc r)"
    using clean1 sub2
    by (auto simp: r nl_def list_all_iff dest!: set_takeWhileD in_set_dropD)
  have c3: "list_all (\<lambda>c. \<not> unsafe_byte c \<and> c \<noteq> CHR ''?'' \<and> c \<noteq> CHR ''#'') (sp_path r)"
  proof -
    have "\<not> unsafe_byte x \<and> x \<noteq> CHR ''?'' \<and> x \<noteq> CHR ''#''" if "x \<in> set pth" for x
    proof -
      from that path_chars[of x url3] have "x \<in> set url3" "x \<noteq> CHR ''?''" "x \<noteq> CHR ''#''"
        by (simp_all add: pth_def)
      with sub3 clean1 show ?thesis by blast
    qed
    then show ?thesis by (simp add: r list_all_iff)
  qed
  have sl_path: "sl \<Longrightarrow> pth = [] \<or> hd pth = CHR ''/''"
  proof -
    assume sl
    then have u3: "url3 = dropWhile (\<lambda>c. \<not> netloc_delim c) (drop 2 url2)" by (simp add: url3_def)
    have "url3 = [] \<or> netloc_delim (hd url3)"
      unfolding u3 using hd_dropWhile[of "\<lambda>c. \<not> netloc_delim c" "drop 2 url2"] by auto
    then show ?thesis
      by (cases url3) (auto simp: pth_def netloc_delim_def)
  qed
  have c4: "if sp_netloc r = [] then True
            else netloc_accepted L (sp_netloc r) \<and> (sp_path r = [] \<or> hd (sp_path r) = CHR ''/'')"
  proof (cases "nl = []")
    case True then show ?thesis by (simp add: r)
  next
    case False
    then have sl by (auto simp: nl_def split: if_splits)
    with acc sl_path False show ?thesis by (simp add: r)
  qed
  have c5: "if sp_scheme r = []
            then \<not> has_scheme (sp_path r) \<and> (sp_path r = [] \<or> \<not> c0_or_space (hd (sp_path r)))
            else True"
  proof (cases "has_scheme url1")
    case True
    then have "scheme_ok (sp_scheme r)" by (simp add: r pre_def has_scheme_scheme_ok)
    then show ?thesis by (auto simp: scheme_ok_def)
  next
    case False
    then have s0: "sp_scheme r = []" and u2: "url2 = url1" by (simp_all add: r url2_def)
    show ?thesis
    proof (cases sl)
      case True
      from sl_path[OF True] have "\<not> has_scheme pth"
        by (cases pth) (auto simp: has_scheme_def is_upper_def is_lower_def py_ord_def Let_def
            split: if_splits)
      moreover from sl_path[OF True] have "pth = [] \<or> \<not> c0_or_space (hd pth)"
        by (auto simp: c0_or_space_def py_ord_def)
      ultimately show ?thesis by (simp add: r s0)
    next
      case nsl: False
      then have u3: "url3 = url1" by (simp add: url3_def u2)
      from path_prefix[of url3] obtain t where
        t: "url1 = pth @ t" "t = [] \<or> hd t = CHR ''?'' \<or> hd t = CHR ''#''"
        by (auto simp: pth_def u3)
      have "\<not> has_scheme pth"
      proof (cases "CHR '':'' \<in> set pth")
        case True
        from has_scheme_prefix[OF True, of t] False t(1) show ?thesis by simp
      next
        case False then show ?thesis by (simp add: has_scheme_def)
      qed
      moreover have "pth = [] \<or> \<not> c0_or_space (hd pth)"
        using hd1 t(1) by (cases pth) auto
      ultimately show ?thesis by (simp add: r s0)
    qed
  qed
  show ?thesis unfolding split_ok_def by (intro conjI c1 c2 c3 c4 c5)
qed

lemma netloc_accepted_Nil: "netloc_accepted L []"
  by (simp add: netloc_accepted_def)

lemma writes_slashes_cong:
  "sp_scheme r = sp_scheme r' \<Longrightarrow> sp_netloc r = sp_netloc r' \<Longrightarrow> sp_path r = sp_path r' \<Longrightarrow>
   writes_slashes L r = writes_slashes L r'"
  by (cases "release L") (simp_all add: writes_slashes_def)

lemma writes_slashes_not:
  assumes "\<not> writes_slashes L r"
    and "release L = CPython_3_11_10 \<or> sp_netloc r \<noteq> [] \<or> take 2 (sp_path r) \<noteq> ''//''"
  shows "sp_netloc r = [] \<and> take 2 (sp_path r) \<noteq> ''//''"
  using assms by (cases "release L") (auto simp: writes_slashes_def)

lemma writes_slashes_slash:
  assumes "writes_slashes L r" and "sp_path r \<noteq> []" and "take 1 (sp_path r) \<noteq> ''/''"
  shows "writes_slashes L (r\<lparr>sp_path := ''/'' @ sp_path r\<rparr>)"
proof -
  from assms(2,3) have a: "take 2 (sp_path r) \<noteq> ''//''" by (cases "sp_path r") auto
  from assms(2,3) have b: "take 2 (''/'' @ sp_path r) \<noteq> ''//''" by (cases "sp_path r") auto
  from assms(1) a b show ?thesis
    by (cases "release L") (auto simp: writes_slashes_def)
qed

lemma reparse:
  assumes ok: "split_ok L r"
    and q_ok: "list_all (\<lambda>c. \<not> unsafe_byte c \<and> c \<noteq> CHR ''#'' \<and> c \<noteq> CHR '':'') q"
    and rel: "release L = CPython_3_11_10 \<or> sp_netloc r \<noteq> [] \<or> take 2 (sp_path r) \<noteq> ''//''"
  shows "\<exists>p'. urlsplit L (urlunsplit L (r\<lparr>sp_query := q, sp_fragment := []\<rparr>))
               = Some (r\<lparr>sp_path := p', sp_query := q, sp_fragment := []\<rparr>)
           \<and> urlunsplit L (r\<lparr>sp_path := p', sp_query := q, sp_fragment := []\<rparr>)
               = urlunsplit L (r\<lparr>sp_query := q, sp_fragment := []\<rparr>)
           \<and> (p' = sp_path r \<or> p' = ''/'' @ sp_path r)"
proof -
  define s where "s = sp_scheme r"
  define n where "n = sp_netloc r"
  define p where "p = sp_path r"
  define cnd where "cnd = writes_slashes L r"
  define p' where "p' = (if cnd \<and> p \<noteq> [] \<and> take 1 p \<noteq> ''/'' then ''/'' @ p else p)"
  define qpart where "qpart = (if q = [] then [] else ''?'' @ q)"
  define out where "out = (if s = [] then [] else s @ '':'') @ (if cnd then ''//'' @ n else []) @ p' @ qpart"
  from ok have sch: "s = [] \<or> scheme_ok s"
    and n_ok: "list_all (\<lambda>c. \<not> unsafe_byte c \<and> \<not> netloc_delim c) n"
    and p_ok: "list_all (\<lambda>c. \<not> unsafe_byte c \<and> c \<noteq> CHR ''?'' \<and> c \<noteq> CHR ''#'') p"
    and nl: "n \<noteq> [] \<longrightarrow> netloc_accepted L n \<and> (p = [] \<or> hd p = CHR ''/'')"
    and ns: "s = [] \<longrightarrow> \<not> has_scheme p \<and> (p = [] \<or> \<not> c0_or_space (hd p))"
    by (simp_all add: split_ok_def s_def n_def p_def split: if_splits)
  have w1: "writes_slashes L (r\<lparr>sp_query := q, sp_fragment := []\<rparr>) = cnd"
    unfolding cnd_def by (rule writes_slashes_cong) simp_all
  have u1: "urlunsplit L (r\<lparr>sp_query := q, sp_fragment := []\<rparr>) = out"
    unfolding urlunsplit_def Let_def w1
    by (simp add: out_def s_def n_def p_def p'_def qpart_def)
  have p'_ok: "list_all (\<lambda>c. \<not> unsafe_byte c \<and> c \<noteq> CHR ''?'' \<and> c \<noteq> CHR ''#'') p'"
    using p_ok by (simp add: p'_def unsafe_byte_def py_ord_def)
  have p'_hd: "cnd \<Longrightarrow> p' = [] \<or> hd p' = CHR ''/''"
    by (cases p) (auto simp: p'_def)
  have acc: "netloc_accepted L n"
    using nl netloc_accepted_Nil by (cases "n = []") auto
  have ncnd: "\<not> cnd \<Longrightarrow> n = [] \<and> take 2 p' \<noteq> ''//''"
    using writes_slashes_not[OF _ rel] by (simp add: cnd_def p'_def n_def p_def)
  have nsch: "s = [] \<Longrightarrow> \<not> cnd \<Longrightarrow> \<not> has_scheme p' \<and> (p' = [] \<or> \<not> c0_or_space (hd p'))"
    using ns by (simp add: p'_def)
  have split: "urlsplit L out
      = Some \<lparr>sp_scheme = s, sp_netloc = n, sp_path = p', sp_query = q, sp_fragment = []\<rparr>"
    unfolding out_def qpart_def
    by (rule urlsplit_build[OF sch n_ok p'_ok q_ok]) (use p'_hd acc ncnd nsch in auto)
  have rec: "r\<lparr>sp_path := p', sp_query := q, sp_fragment := []\<rparr>
      = \<lparr>sp_scheme = s, sp_netloc = n, sp_path = p', sp_query = q, sp_fragment = []\<rparr>"
    by (simp add: s_def n_def)
  have cnd': "writes_slashes L \<lparr>sp_scheme = s, sp_netloc = n, sp_path = p', sp_query = q,
                                 sp_fragment = []\<rparr> = cnd"
  proof (cases "cnd \<and> p \<noteq> [] \<and> take 1 p \<noteq> ''/''")
    case False
    then have "p' = p" by (auto simp: p'_def)
    then show ?thesis
      unfolding cnd_def by (intro writes_slashes_cong) (simp_all add: s_def n_def p_def)
  next
    case True
    then have e: "p' = ''/'' @ p" by (simp add: p'_def)
    from True writes_slashes_slash[of L r]
    have "writes_slashes L (r\<lparr>sp_path := ''/'' @ sp_path r\<rparr>)"
      by (simp add: cnd_def p_def)
    moreover have "writes_slashes L \<lparr>sp_scheme = s, sp_netloc = n, sp_path = ''/'' @ p,
                                      sp_query = q, sp_fragment = []\<rparr>
        = writes_slashes L (r\<lparr>sp_path := ''/'' @ sp_path r\<rparr>)"
      by (intro writes_slashes_cong) (simp_all add: s_def n_def p_def)
    ultimately have "writes_slashes L \<lparr>sp_scheme = s, sp_netloc = n, sp_path = ''/'' @ p,
                                        sp_query = q, sp_fragment = []\<rparr>"
      by simp
    with True e show ?thesis by simp
  qed
  have inner: "cnd \<Longrightarrow> (if p' \<noteq> [] \<and> take 1 p' \<noteq> ''/'' then ''/'' @ p' else p') = p'"
    using p'_hd by (cases p') auto
  have u2: "urlunsplit L \<lparr>sp_scheme = s, sp_netloc = n, sp_path = p', sp_query = q, sp_fragment = []\<rparr> = out"
    unfolding urlunsplit_def Let_def cnd' split_result.select_convs
    using inner by (cases cnd) (simp_all add: out_def qpart_def)
  have "p' = p \<or> p' = ''/'' @ p" by (simp add: p'_def)
  with split u1 u2 rec show ?thesis by (intro exI[of _ p']) (simp add: p_def)
qed
section \<open>Canonical URLs and the same-site scope\<close>

lemma strip_tracking_query:
  assumes "urlsplit L u = Some r"
    and "urlencode (filter (\<lambda>(k, v). \<not> tracking k) (parse_qsl (sp_query r))) = Some e"
  shows "strip_tracking L u = Some (urlunsplit L (r\<lparr>sp_query := e, sp_fragment := []\<rparr>))"
proof -
  have "urlunsplit L \<lparr>sp_scheme = sp_scheme r, sp_netloc = sp_netloc r, sp_path = sp_path r,
                       sp_query = e, sp_fragment = []\<rparr>
      = urlunsplit L (r\<lparr>sp_query := e, sp_fragment := []\<rparr>)"
    by (rule arg_cong[where f = "urlunsplit L"]) simp
  with assms show ?thesis by (simp add: strip_tracking_def Let_def)
qed

lemma strip_tracking_Some:
  assumes "strip_tracking L u = Some c"
  shows "\<exists>r e. urlsplit L u = Some r
           \<and> urlencode (filter (\<lambda>(k, v). \<not> tracking k) (parse_qsl (sp_query r))) = Some e
           \<and> c = urlunsplit L (r\<lparr>sp_query := e, sp_fragment := []\<rparr>)"
proof -
  from assms obtain r where r: "urlsplit L u = Some r"
    by (auto simp: strip_tracking_def split: option.splits)
  with assms obtain e where
    e: "urlencode (filter (\<lambda>(k, v). \<not> tracking k) (parse_qsl (sp_query r))) = Some e"
    by (auto simp: strip_tracking_def Let_def split: option.splits)
  from strip_tracking_query[OF r e] assms r e show ?thesis by simp
qed

lemma urlencode_q_ok:
  "urlencode q = Some e \<Longrightarrow>
   list_all (\<lambda>c. \<not> unsafe_byte c \<and> c \<noteq> CHR ''#'' \<and> c \<noteq> CHR '':'') e"
  using urlencode_free[of q e] by (auto simp: list_all_iff)

lemma strip_tracking_resplit:
  assumes "urlsplit L u = Some r"
    and "urlencode (filter (\<lambda>(k, v). \<not> tracking k) (parse_qsl (sp_query r))) = Some e"
    and "release L = CPython_3_11_10 \<or> sp_netloc r \<noteq> [] \<or> take 2 (sp_path r) \<noteq> ''//''"
  shows "\<exists>c p'. strip_tracking L u = Some c
           \<and> urlsplit L c = Some (r\<lparr>sp_path := p', sp_query := e, sp_fragment := []\<rparr>)
           \<and> urlunsplit L (r\<lparr>sp_path := p', sp_query := e, sp_fragment := []\<rparr>) = c
           \<and> (p' = sp_path r \<or> p' = ''/'' @ sp_path r)"
proof -
  from reparse[OF urlsplit_split_ok[OF assms(1)] urlencode_q_ok[OF assms(2)] assms(3)]
  obtain p' where
    "urlsplit L (urlunsplit L (r\<lparr>sp_query := e, sp_fragment := []\<rparr>))
       = Some (r\<lparr>sp_path := p', sp_query := e, sp_fragment := []\<rparr>)"
    "urlunsplit L (r\<lparr>sp_path := p', sp_query := e, sp_fragment := []\<rparr>)
       = urlunsplit L (r\<lparr>sp_query := e, sp_fragment := []\<rparr>)"
    "p' = sp_path r \<or> p' = ''/'' @ sp_path r"
    by blast
  with strip_tracking_query[OF assms(1,2)] show ?thesis by blast
qed

text \<open>
  C2, as the code has it. Canonicalization is idempotent on every URL that has a network
  location or whose path does not begin with \<open>//\<close>, and with the \<open>urlunsplit\<close> of release
  3.11.10 on every URL: whenever \<open>_strip_tracking\<close> returns a URL \<open>c\<close> for such a \<open>u\<close> (it raises
  where \<open>urlsplit\<close> rejects the network location and where a kept parameter has a lone
  surrogate), it returns \<open>c\<close> for \<open>c\<close>.
\<close>

theorem strip_tracking_idempotent:
  assumes "strip_tracking L u = Some c"
    and "urlsplit L u = Some r"
    and "release L = CPython_3_11_10 \<or> sp_netloc r \<noteq> [] \<or> take 2 (sp_path r) \<noteq> ''//''"
  shows "strip_tracking L c = Some c"
proof -
  define qs where "qs = filter (\<lambda>(k, v). \<not> tracking k) (parse_qsl (sp_query r))"
  from strip_tracking_Some[OF assms(1)] assms(2) obtain e where
    e: "urlencode qs = Some e" by (auto simp: qs_def)
  from strip_tracking_resplit[OF assms(2) e[unfolded qs_def] assms(3)] assms(1) obtain p' where
    sp: "urlsplit L c = Some (r\<lparr>sp_path := p', sp_query := e, sp_fragment := []\<rparr>)"
    and un: "urlunsplit L (r\<lparr>sp_path := p', sp_query := e, sp_fragment := []\<rparr>) = c"
    by auto
  have "filter (\<lambda>(k, v). \<not> tracking k) (parse_qsl e) = qs"
    by (simp add: parse_qsl_urlencode[OF e] qs_def)
  with e have "urlencode (filter (\<lambda>(k, v). \<not> tracking k)
      (parse_qsl (sp_query (r\<lparr>sp_path := p', sp_query := e, sp_fragment := []\<rparr>)))) = Some e"
    by simp
  from strip_tracking_query[OF sp this] un show ?thesis by simp
qed

lemma url_example_1:
  "strip_tracking strict_lib_3_12 ''https://example.com/p?utm_source=x&q=caf%E9#top''
     = Some ''https://example.com/p?q=caf%EF%BF%BD''"
  "urlsplit strict_lib_3_12 ''https://example.com/p?utm_source=x&q=caf%E9#top''
     = Some \<lparr>sp_scheme = ''https'', sp_netloc = ''example.com'', sp_path = ''/p'',
              sp_query = ''utm_source=x&q=caf%E9'', sp_fragment = ''top''\<rparr>"
  by code_simp+

theorem strip_tracking_idempotent_witness:
  "strip_tracking strict_lib_3_12 ''https://example.com/p?utm_source=x&q=caf%E9#top''
     = Some ''https://example.com/p?q=caf%EF%BF%BD''
   \<and> strip_tracking strict_lib_3_12 ''https://example.com/p?q=caf%EF%BF%BD''
     = Some ''https://example.com/p?q=caf%EF%BF%BD''"
  using strip_tracking_idempotent[OF url_example_1] url_example_1(1) by simp

text \<open>
  The claim as stated fails with the \<open>urlunsplit\<close> of release 3.12.3: \<open>http://////x\<close> has no
  network location and the path \<open>////x\<close>; its canonical URL is \<open>http:////x\<close>, whose canonical
  URL is \<open>http://x\<close>.
\<close>

theorem slashes_counterexample:
  "strip_tracking strict_lib_3_12 ''http://////x'' = Some ''http:////x''
   \<and> strip_tracking strict_lib_3_12 ''http:////x'' = Some ''http://x''
   \<and> ''http:////x'' \<noteq> ''http://x''"
  by code_simp








lemma set_set_add: "set (set_add x xs) = insert x (set xs)"
  by (auto simp: set_add_def)

text \<open>
  C4, as the code has it. The scope set of a seed URL is empty when the URL has no host;
  otherwise it consists of exactly the lower-cased host, the host without a leading \<open>www.\<close>
  (the naked host), \<open>www.\<close> followed by the naked host, and, when the naked host has more
  than two labels, its last two labels.
\<close>

theorem allowed_domains_set:
  assumes "same_site_allowed_domains L u = Some ds"
  shows "\<exists>parsed. urlparse L u = Some parsed \<and>
     set ds =
      (let host = py_lower (case hostname (pr_netloc parsed) of None \<Rightarrow> [] | Some h \<Rightarrow> h);
           naked = (if startswith host ''www.'' then drop 4 host else host);
           parts = split_on CHR ''.'' naked
       in if host = [] then {}
          else {host, naked, ''www.'' @ naked}
               \<union> (if length parts > 2 then {join ''.'' (drop (length parts - 2) parts)} else {}))"
  using assms
  by (auto simp: same_site_allowed_domains_def Let_def set_set_add split: option.splits if_splits)

lemma url_example_5:
  "same_site_allowed_domains strict_lib ''https://blog.example.com/''
     = Some [''blog.example.com'', ''www.blog.example.com'', ''example.com'']"
  by code_simp

theorem allowed_domains_set_witness:
  "same_site_allowed_domains strict_lib ''https://blog.example.com/''
     = Some [''blog.example.com'', ''www.blog.example.com'', ''example.com'']
   \<and> (\<exists>parsed. urlparse strict_lib ''https://blog.example.com/'' = Some parsed
        \<and> set [''blog.example.com'', ''www.blog.example.com'', ''example.com'']
           = (let host = py_lower (case hostname (pr_netloc parsed) of None \<Rightarrow> [] | Some h \<Rightarrow> h);
                  naked = (if startswith host ''www.'' then drop 4 host else host);
                  parts = split_on CHR ''.'' naked
              in if host = [] then {}
                 else {host, naked, ''www.'' @ naked}
                      \<union> (if length parts > 2 then {join ''.'' (drop (length parts - 2) parts)}
                         else {})))"
  using allowed_domains_set[OF url_example_5] url_example_5 by blast

text \<open>
  The claim as stated fails: for the seed host \<open>blog.example.com\<close>, which is no \<open>www.\<close> host,
  the last-two-label apex \<open>example.com\<close> is in the scope set.
\<close>

theorem subdomain_apex_counterexample:
  "same_site_allowed_domains strict_lib ''https://blog.example.com/''
     = Some [''blog.example.com'', ''www.blog.example.com'', ''example.com'']
   \<and> ''example.com'' \<in> set [''blog.example.com'', ''www.blog.example.com'', ''example.com'']
   \<and> hostname ''blog.example.com'' = Some ''blog.example.com''"
  by code_simp

section \<open>Digests of three URLs\<close>

lemma le_bytes_numeral:
  "le_bytes (numeral k) n = (n mod 256) # le_bytes (pred_numeral k) (n div 256)"
  by (subst numeral_eq_Suc) simp

lemma replicate_num: "replicate (numeral k) x = x # replicate (pred_numeral k) x"
  by (subst numeral_eq_Suc) simp

lemma md5_loop_numeral:
  "md5_loop m (numeral n) i st = md5_loop m (pred_numeral n) (i + 1) (md5_op m st i)"
  by (subst numeral_eq_Suc) simp

lemmas md5_block_eval =
  md5_loop_numeral md5_block_def md5_op_def md5_K_def md5_shift_def md5_F_def md5_g_def rotl32_def

lemmas md5_pad_eval = md5_pad_def py_ord_def replicate_num le_bytes_numeral

lemma md5_one_block:
  "le_words (md5_pad (map py_ord s)) = ws \<Longrightarrow> length ws = 16 \<Longrightarrow>
   md5_block (0x67452301, 0xefcdab89, 0x98badcfe, 0x10325476) ws = (a, b, c, d) \<Longrightarrow>
   md5_hexdigest s = concat (map hex_byte (concat (map (\<lambda>w. le_bytes 4 (unat w)) [a, b, c, d])))"
  by (simp add: md5_hexdigest_def Let_def)

lemma md5_home: "take 10 (md5_hexdigest ''https://example.com/'') = ''182ccedb33''"
proof -
  have 1: "le_words (md5_pad (map py_ord ''https://example.com/''))
     = [1886680168, 791624307, 1835104357, 778398832, 795701091, 128, 0, 0, 0, 0, 0, 0, 0, 0, 160, 0]"
    by (simp add: md5_pad_eval)
  have 2: "md5_block (0x67452301, 0xefcdab89, 0x98badcfe, 0x10325476)
      [1886680168, 791624307, 1835104357, 778398832, 795701091, 128, 0, 0, 0, 0, 0, 0, 0, 0, 160, 0]
     = (3687722008, 1071687987, 2994278591, 823843337)"
    by (simp add: md5_block_eval)
  show ?thesis
    by (subst md5_one_block[OF 1 _ 2]) (simp_all add: hex_byte_def hex_lower_def le_bytes_numeral)
qed

lemma md5_tracked: "take 10 (md5_hexdigest ''https://example.com/?utm_source=x'') = ''274b2ba18b''"
proof -
  have 1: "le_words (md5_pad (map py_ord ''https://example.com/?utm_source=x''))
     = [1886680168, 791624307, 1835104357, 778398832, 795701091, 1836348735, 1970238303, 1030054770, 32888, 0, 0, 0, 0, 0, 264, 0]"
    by (simp add: md5_pad_eval)
  have 2: "md5_block (0x67452301, 0xefcdab89, 0x98badcfe, 0x10325476)
      [1886680168, 791624307, 1835104357, 778398832, 795701091, 1836348735, 1970238303, 1030054770, 32888, 0, 0, 0, 0, 0, 264, 0]
     = (2703969063, 3182243723, 97720348, 2429882404)"
    by (simp add: md5_block_eval)
  show ?thesis
    by (subst md5_one_block[OF 1 _ 2]) (simp_all add: hex_byte_def hex_lower_def le_bytes_numeral)
qed

lemma md5_page_b: "take 10 (md5_hexdigest ''https://example.com/b'') = ''43cc12e82d''"
proof -
  have 1: "le_words (md5_pad (map py_ord ''https://example.com/b''))
     = [1886680168, 791624307, 1835104357, 778398832, 795701091, 32866, 0, 0, 0, 0, 0, 0, 0, 0, 168, 0]"
    by (simp add: md5_pad_eval)
  have 2: "md5_block (0x67452301, 0xefcdab89, 0x98badcfe, 0x10325476)
      [1886680168, 791624307, 1835104357, 778398832, 795701091, 32866, 0, 0, 0, 0, 0, 0, 0, 0, 168, 0]
     = (3893546051, 3319828781, 2356553764, 3062822334)"
    by (simp add: md5_block_eval)
  show ?thesis
    by (subst md5_one_block[OF 1 _ 2]) (simp_all add: hex_byte_def hex_lower_def le_bytes_numeral)
qed

section \<open>Document names\<close>

lemma sanitize_eval:
  "urldefrag L u = Some (clean, frag) \<Longrightarrow> urlparse L clean = Some parsed \<Longrightarrow>
   strip_chars CHR ''-'' (take 80 (re_sub_nonalnum (pr_netloc parsed @ pr_path parsed))) = stem \<Longrightarrow>
   stem \<noteq> [] \<Longrightarrow>
   sanitize_filename_from_url L u = Some (stem @ ''-'' @ take 10 (md5_hexdigest clean) @ ''.pdf'')"
  by (simp add: sanitize_filename_from_url_def)

lemma re_sub_nonalnum_chars: "c \<in> set (re_sub_nonalnum s) \<Longrightarrow> is_alnum c \<or> c = CHR ''-''"
  by (induction s rule: re_sub_nonalnum.induct) (auto split: if_splits)

lemma strip_chars_subset: "set (strip_chars c s) \<subseteq> set s"
  by (auto simp: strip_chars_def dest!: set_dropWhileD)

lemma strip_chars_length: "length (strip_chars c s) \<le> length s"
proof -
  have "length (dropWhile (\<lambda>x. x = c) (rev (dropWhile (\<lambda>x. x = c) s)))
      \<le> length (rev (dropWhile (\<lambda>x. x = c) s))"
    by (rule length_dropWhile_le)
  also have "\<dots> \<le> length s" by (simp add: length_dropWhile_le)
  finally show ?thesis by (simp add: strip_chars_def)
qed

text \<open>
  C9, as the code has it. The file name is a function of the URL without its fragment
  (\<open>urldefrag\<close>), not of the canonical URL: a slug of network location and path, of at most 80
  letters, digits and hyphens (\<open>page\<close> when empty), a hyphen, the first ten hexadecimal
  digits of the MD5 digest of the defragmented URL, and \<open>.pdf\<close>. Two URLs with the same
  defragmented form have the same file name.
\<close>

theorem filename_from_defragmented_url:
  assumes "sanitize_filename_from_url L u = Some f"
  shows "(\<exists>clean frag parsed stem. urldefrag L u = Some (clean, frag)
            \<and> urlparse L clean = Some parsed
            \<and> stem = strip_chars CHR ''-''
                       (take 80 (re_sub_nonalnum (pr_netloc parsed @ pr_path parsed)))
            \<and> f = (if stem = [] then ''page'' else stem) @ ''-''
                    @ take 10 (md5_hexdigest clean) @ ''.pdf''
            \<and> length stem \<le> 80 \<and> list_all (\<lambda>c. is_alnum c \<or> c = CHR ''-'') stem)
       \<and> (\<forall>u2. map_option fst (urldefrag L u2) = map_option fst (urldefrag L u)
              \<longrightarrow> sanitize_filename_from_url L u2 = Some f)"
proof
  from assms obtain clean frag parsed where
    d: "urldefrag L u = Some (clean, frag)" and p: "urlparse L clean = Some parsed"
    by (auto simp: sanitize_filename_from_url_def split: option.splits)
  define stem where
    "stem = strip_chars CHR ''-'' (take 80 (re_sub_nonalnum (pr_netloc parsed @ pr_path parsed)))"
  from assms d p have f: "f = (if stem = [] then ''page'' else stem) @ ''-''
      @ take 10 (md5_hexdigest clean) @ ''.pdf''"
    by (auto simp: sanitize_filename_from_url_def stem_def Let_def)
  have len: "length stem \<le> 80"
    unfolding stem_def
    by (rule order_trans[OF strip_chars_length]) simp
  have chars: "list_all (\<lambda>c. is_alnum c \<or> c = CHR ''-'') stem"
    unfolding stem_def list_all_iff
    using strip_chars_subset[of "CHR ''-''"] re_sub_nonalnum_chars
    by (meson in_set_takeD subsetD)
  from d p f len chars stem_def
  show "\<exists>clean frag parsed stem. urldefrag L u = Some (clean, frag)
            \<and> urlparse L clean = Some parsed
            \<and> stem = strip_chars CHR ''-''
                       (take 80 (re_sub_nonalnum (pr_netloc parsed @ pr_path parsed)))
            \<and> f = (if stem = [] then ''page'' else stem) @ ''-''
                    @ take 10 (md5_hexdigest clean) @ ''.pdf''
            \<and> length stem \<le> 80 \<and> list_all (\<lambda>c. is_alnum c \<or> c = CHR ''-'') stem"
    by blast
next
  show "\<forall>u2. map_option fst (urldefrag L u2) = map_option fst (urldefrag L u)
              \<longrightarrow> sanitize_filename_from_url L u2 = Some f"
  proof (intro allI impI)
    fix u2 assume e: "map_option fst (urldefrag L u2) = map_option fst (urldefrag L u)"
    from assms obtain clean frag where d: "urldefrag L u = Some (clean, frag)"
      by (auto simp: sanitize_filename_from_url_def split: option.splits)
    with e obtain frag2 where d2: "urldefrag L u2 = Some (clean, frag2)" by auto
    from assms show "sanitize_filename_from_url L u2 = Some f"
      by (simp add: sanitize_filename_from_url_def d d2)
  qed
qed

lemma parse_home:
  "urlparse strict_lib ''https://example.com/''
   = Some \<lparr>pr_scheme = ''https'', pr_netloc = ''example.com'', pr_path = ''/'', pr_params = [],
            pr_query = [], pr_fragment = []\<rparr>"
  by code_simp

lemma stem_home:
  "strip_chars CHR ''-'' (take 80 (re_sub_nonalnum
      (pr_netloc \<lparr>pr_scheme = ''https'', pr_netloc = ''example.com'', pr_path = ''/'',
         pr_params = [], pr_query = [], pr_fragment = []\<rparr>
       @ pr_path \<lparr>pr_scheme = ''https'', pr_netloc = ''example.com'', pr_path = ''/'',
         pr_params = [], pr_query = [], pr_fragment = []\<rparr>))) = ''example-com''"
  by code_simp

lemma defrag_home: "urldefrag strict_lib ''https://example.com/'' = Some (''https://example.com/'', [])"
  by code_simp

lemma name_home:
  "sanitize_filename_from_url strict_lib ''https://example.com/'' = Some ''example-com-182ccedb33.pdf''"
  using sanitize_eval[OF defrag_home parse_home stem_home] by (simp add: md5_home)

lemma defrag_top: "urldefrag strict_lib ''https://example.com/#top'' = Some (''https://example.com/'', ''top'')"
  by code_simp

lemma defrag_other:
  "urldefrag strict_lib ''https://example.com/#other'' = Some (''https://example.com/'', ''other'')"
  by code_simp

lemma name_top:
  "sanitize_filename_from_url strict_lib ''https://example.com/#top'' = Some ''example-com-182ccedb33.pdf''"
  using sanitize_eval[OF defrag_top parse_home stem_home] by (simp add: md5_home)

theorem filename_from_defragmented_url_witness:
  "sanitize_filename_from_url strict_lib ''https://example.com/#top'' = Some ''example-com-182ccedb33.pdf''
   \<and> sanitize_filename_from_url strict_lib ''https://example.com/#other''
       = Some ''example-com-182ccedb33.pdf''"
proof -
  from filename_from_defragmented_url[OF name_top]
  have "\<forall>u2. map_option fst (urldefrag strict_lib u2)
          = map_option fst (urldefrag strict_lib ''https://example.com/#top'')
        \<longrightarrow> sanitize_filename_from_url strict_lib u2 = Some ''example-com-182ccedb33.pdf''"
    by blast
  then have "sanitize_filename_from_url strict_lib ''https://example.com/#other''
      = Some ''example-com-182ccedb33.pdf''"
    by (simp add: defrag_top defrag_other)
  with name_top show ?thesis by simp
qed

lemma defrag_tracked:
  "urldefrag strict_lib ''https://example.com/?utm_source=x'' = Some (''https://example.com/?utm_source=x'', [])"
  by code_simp

lemma parse_tracked:
  "urlparse strict_lib ''https://example.com/?utm_source=x''
   = Some \<lparr>pr_scheme = ''https'', pr_netloc = ''example.com'', pr_path = ''/'', pr_params = [],
            pr_query = ''utm_source=x'', pr_fragment = []\<rparr>"
  by code_simp

lemma stem_tracked:
  "strip_chars CHR ''-'' (take 80 (re_sub_nonalnum
      (pr_netloc \<lparr>pr_scheme = ''https'', pr_netloc = ''example.com'', pr_path = ''/'',
         pr_params = [], pr_query = ''utm_source=x'', pr_fragment = []\<rparr>
       @ pr_path \<lparr>pr_scheme = ''https'', pr_netloc = ''example.com'', pr_path = ''/'',
         pr_params = [], pr_query = ''utm_source=x'', pr_fragment = []\<rparr>))) = ''example-com''"
  by code_simp

lemma name_tracked:
  "sanitize_filename_from_url strict_lib ''https://example.com/?utm_source=x''
     = Some ''example-com-274b2ba18b.pdf''"
  using sanitize_eval[OF defrag_tracked parse_tracked stem_tracked] by (simp add: md5_tracked)

lemma canon_tracked:
  "strip_tracking strict_lib ''https://example.com/?utm_source=x'' = Some ''https://example.com/''"
  "strip_tracking strict_lib ''https://example.com/'' = Some ''https://example.com/''"
  by code_simp+

text \<open>
  The claim as stated fails: two URLs that differ only by a tracking parameter have the same
  canonical form and different file names, since the digest is taken over the query too.
\<close>

theorem filename_tracking_counterexample:
  "strip_tracking strict_lib ''https://example.com/?utm_source=x'' = Some ''https://example.com/''
   \<and> strip_tracking strict_lib ''https://example.com/'' = Some ''https://example.com/''
   \<and> sanitize_filename_from_url strict_lib ''https://example.com/?utm_source=x''
       = Some ''example-com-274b2ba18b.pdf''
   \<and> sanitize_filename_from_url strict_lib ''https://example.com/'' = Some ''example-com-182ccedb33.pdf''
   \<and> ''example-com-274b2ba18b.pdf'' \<noteq> ''example-com-182ccedb33.pdf''"
  using canon_tracked name_tracked name_home by simp

section \<open>The output area only grows\<close>















lemma child_name_path: "child_name d p = Some name \<Longrightarrow> p = path_join d name"
proof -
  assume "child_name d p = Some name"
  then have s: "take (Suc (length d)) p = d @ ''/''" and n: "name = drop (Suc (length d)) p"
    by (auto simp: child_name_def Let_def startswith_def split: if_splits)
  have "p = take (Suc (length d)) p @ drop (Suc (length d)) p" by simp
  with s n show ?thesis by (simp add: path_join_def)
qed

lemma listdir_exists:
  "name \<in> set (listdir d files) \<Longrightarrow> fs_lookup (path_join d name) files \<noteq> None"
proof -
  assume "name \<in> set (listdir d files)"
  then obtain e where e: "e \<in> set files" "child_name d (fst e) = Some name"
    by (auto simp: listdir_def List.map_filter_def)
  from child_name_path[OF e(2)] e(1) have "path_join d name \<in> fst ` set files" by force
  then show ?thesis by (simp add: fs_lookup_def map_of_eq_None_iff)
qed

lemma zip_members:
  assumes "\<forall>name \<in> set names. fs_lookup (path_join d name) files \<noteq> None"
  shows "map fst (List.map_filter
           (\<lambda>name. map_option (\<lambda>n. (name, n)) (fs_lookup (path_join d name) files)) names) = names"
  using assms by (induction names) (auto simp: List.map_filter_simps)

section \<open>Crawls and what they leave\<close>

lemma parse_eval:
  assumes "follow_links (lib E) (extract_links E allowed resp) = (links, True)"
    and "sanitize_filename_from_url (lib E) (r_url resp) = Some f"
    and "strip (case r_title resp of None \<Rightarrow> [] | Some t \<Rightarrow> t) = title"
    and "make_pdf_story \<lparr>p_url = r_url resp, p_title = (if title = [] then ''(No title)'' else title),
           p_meta = r_meta resp, p_text = r_text resp, p_outgoing_links = links\<rparr> = Some story"
  shows "parse E outdir allowed resp files
     = Some (links, if build_ok E story then fs_put (path_join outdir f) (PdfFile story) files
                    else files)"
  using assms by (simp add: parse_def Let_def make_pdf_def)






lemma engine_done: "engine E outdir allowed start_url maxdepth [] seen files = Some files"
  by (subst engine.simps) simp

lemma engine_step:
  "dispatch E outdir allowed start_url rq files = Some (hrefs, files') \<Longrightarrow>
   enqueue E maxdepth (Suc (rq_depth rq)) hrefs rest seen = (queue', seen') \<Longrightarrow>
   engine E outdir allowed start_url maxdepth (rq # rest) seen files
     = engine E outdir allowed start_url maxdepth queue' seen' files'"
  by (subst engine.simps) simp

lemma defrag_b: "urldefrag strict_lib ''https://example.com/b'' = Some (''https://example.com/b'', [])"
  by code_simp

lemma parse_b:
  "urlparse strict_lib ''https://example.com/b''
   = Some \<lparr>pr_scheme = ''https'', pr_netloc = ''example.com'', pr_path = ''/b'', pr_params = [],
            pr_query = [], pr_fragment = []\<rparr>"
  by code_simp

lemma stem_b:
  "strip_chars CHR ''-'' (take 80 (re_sub_nonalnum
      (pr_netloc \<lparr>pr_scheme = ''https'', pr_netloc = ''example.com'', pr_path = ''/b'',
         pr_params = [], pr_query = [], pr_fragment = []\<rparr>
       @ pr_path \<lparr>pr_scheme = ''https'', pr_netloc = ''example.com'', pr_path = ''/b'',
         pr_params = [], pr_query = [], pr_fragment = []\<rparr>))) = ''example-com-b''"
  by code_simp

lemma name_b:
  "sanitize_filename_from_url strict_lib ''https://example.com/b'' = Some ''example-com-b-43cc12e82d.pdf''"
  using sanitize_eval[OF defrag_b parse_b stem_b] by (simp add: md5_page_b)

lemma allowed_home:
  "same_site_allowed_domains strict_lib ''https://example.com/''
     = Some [''example.com'', ''www.example.com'']"
  by code_simp

lemma follow_home:
  "follow_links strict_lib [''https://example.com/b''] = ([''https://example.com/b''], True)"
  by code_simp

lemma strip_home: "strip ''Home'' = ''Home''" "strip [] = []"
  by code_simp+

lemma story_home:
  "make_pdf_story \<lparr>p_url = ''https://example.com/'', p_title = ''Home'', p_meta = [],
      p_text = ''Welcome'', p_outgoing_links = [''https://example.com/b'']\<rparr>
   = Some [Heading1 ''Home'', Paragraph ''https://example.com/'', Spacer 15, Spacer 10,
           Heading2 ''Page Text'', Paragraph ''Welcome'', Spacer 5]"
  by code_simp

lemma story_b:
  "make_pdf_story \<lparr>p_url = ''https://example.com/b'', p_title = ''(No title)'', p_meta = [],
      p_text = ''More'', p_outgoing_links = []\<rparr>
   = Some [Heading1 ''(No title)'', Paragraph ''https://example.com/b'', Spacer 15, Spacer 10,
           Heading2 ''Page Text'', Paragraph ''More'', Spacer 5]"
  by code_simp

lemma parse_home_eval:
  assumes "lib E = strict_lib" and "extract_links E = (\<lambda>allowed resp. r_anchors resp)"
    and "build_ok E = (\<lambda>story. True)"
  shows "parse E outdir allowed home files
     = Some ([''https://example.com/b''],
             fs_put (path_join outdir ''example-com-182ccedb33.pdf'')
               (PdfFile [Heading1 ''Home'', Paragraph ''https://example.com/'', Spacer 15, Spacer 10,
                         Heading2 ''Page Text'', Paragraph ''Welcome'', Spacer 5]) files)"
proof -
  have 1: "follow_links (lib E) (extract_links E allowed home) = ([''https://example.com/b''], True)"
    by (simp add: assms home_def follow_home del: follow_links.simps)
  have 2: "sanitize_filename_from_url (lib E) (r_url home) = Some ''example-com-182ccedb33.pdf''"
    by (simp add: assms home_def name_home)
  have 3: "strip (case r_title home of None \<Rightarrow> [] | Some t \<Rightarrow> t) = ''Home''"
    by (simp add: home_def strip_home)
  have 4: "make_pdf_story \<lparr>p_url = r_url home,
        p_title = (if ''Home'' = [] then ''(No title)'' else ''Home''),
        p_meta = r_meta home, p_text = r_text home, p_outgoing_links = [''https://example.com/b'']\<rparr>
     = Some [Heading1 ''Home'', Paragraph ''https://example.com/'', Spacer 15, Spacer 10,
             Heading2 ''Page Text'', Paragraph ''Welcome'', Spacer 5]"
    using story_home by (simp add: home_def)
  from parse_eval[OF 1 2 3 4, of outdir files] show ?thesis by (simp add: assms)
qed

lemma parse_b_eval:
  assumes "lib E = strict_lib" and "extract_links E = (\<lambda>allowed resp. r_anchors resp)"
    and "build_ok E = (\<lambda>story. True)"
  shows "parse E outdir allowed page_b files
     = Some ([],
             fs_put (path_join outdir ''example-com-b-43cc12e82d.pdf'')
               (PdfFile [Heading1 ''(No title)'', Paragraph ''https://example.com/b'', Spacer 15,
                         Spacer 10, Heading2 ''Page Text'', Paragraph ''More'', Spacer 5]) files)"
proof -
  have 1: "follow_links (lib E) (extract_links E allowed page_b) = ([], True)"
    by (simp add: assms page_b_def)
  have 2: "sanitize_filename_from_url (lib E) (r_url page_b) = Some ''example-com-b-43cc12e82d.pdf''"
    by (simp add: assms page_b_def name_b)
  have 3: "strip (case r_title page_b of None \<Rightarrow> [] | Some t \<Rightarrow> t) = []"
    by (simp add: page_b_def strip_home)
  have 4: "make_pdf_story \<lparr>p_url = r_url page_b,
        p_title = (if ([]::string) = [] then ''(No title)'' else []),
        p_meta = r_meta page_b, p_text = r_text page_b, p_outgoing_links = []\<rparr>
     = Some [Heading1 ''(No title)'', Paragraph ''https://example.com/b'', Spacer 15, Spacer 10,
             Heading2 ''Page Text'', Paragraph ''More'', Spacer 5]"
    using story_b by (simp add: page_b_def)
  from parse_eval[OF 1 2 3 4, of outdir files] show ?thesis by (simp add: assms)
qed

lemma site_fields:
  "lib site = strict_lib" "extract_links site = (\<lambda>allowed resp. r_anchors resp)"
  "build_ok site = (\<lambda>story. True)" "fingerprint site = (\<lambda>u. u)" "engine_error site = None"
  "download site ''https://example.com/'' = Response home"
  "download site ''https://example.com/b'' = Response page_b"
  by (simp_all add: site_def)


lemma crawl_site:
  assumes "depth = 0 \<or> depth = 1"
  shows "crawl_to_pdfs site ''https://example.com/'' depth outdir files
   = Some (Inr True,
       fs_put (path_join outdir ''example-com-b-43cc12e82d.pdf'')
         (PdfFile [Heading1 ''(No title)'', Paragraph ''https://example.com/b'', Spacer 15,
                   Spacer 10, Heading2 ''Page Text'', Paragraph ''More'', Spacer 5])
         (fs_put (path_join outdir ''example-com-182ccedb33.pdf'')
            (PdfFile [Heading1 ''Home'', Paragraph ''https://example.com/'', Spacer 15, Spacer 10,
                      Heading2 ''Page Text'', Paragraph ''Welcome'', Spacer 5]) files))"
proof -
  define allowed where "allowed = [''example.com'', ''www.example.com'']"
  define rq0 where "rq0 = \<lparr>rq_url = ''https://example.com/'', rq_depth = 0, rq_errback = True,
    rq_dont_filter = True\<rparr>"
  define rq1 where "rq1 = \<lparr>rq_url = ''https://example.com/b'', rq_depth = 1, rq_errback = False,
    rq_dont_filter = False\<rparr>"
  define files1 where "files1 = fs_put (path_join outdir ''example-com-182ccedb33.pdf'')
            (PdfFile [Heading1 ''Home'', Paragraph ''https://example.com/'', Spacer 15, Spacer 10,
                      Heading2 ''Page Text'', Paragraph ''Welcome'', Spacer 5]) files"
  define files2 where "files2 = fs_put (path_join outdir ''example-com-b-43cc12e82d.pdf'')
         (PdfFile [Heading1 ''(No title)'', Paragraph ''https://example.com/b'', Spacer 15,
                   Spacer 10, Heading2 ''Page Text'', Paragraph ''More'', Spacer 5]) files1"
  have d0: "dispatch site outdir allowed ''https://example.com/'' rq0 files
      = Some ([''https://example.com/b''], files1)"
    by (simp add: dispatch_def rq0_def site_fields parse_home_eval[OF site_fields(1,2,3)] files1_def)
  have e0: "enqueue site depth (Suc (rq_depth rq0)) [''https://example.com/b''] [] []
      = ([rq1], [''https://example.com/b''])"
    using assms by (auto simp: rq0_def rq1_def depth_allowed_def site_fields)
  have d1: "dispatch site outdir allowed ''https://example.com/'' rq1 files1 = Some ([], files2)"
    by (simp add: dispatch_def rq1_def site_fields parse_b_eval[OF site_fields(1,2,3)] files2_def)
  have e1: "enqueue site depth (Suc (rq_depth rq1)) [] [] [''https://example.com/b'']
      = ([], [''https://example.com/b''])"
    by simp
  have "engine site outdir allowed ''https://example.com/'' depth [rq0] [] files = Some files2"
    by (simp only: engine_step[OF d0 e0] engine_step[OF d1 e1] engine_done)
  then show ?thesis
    by (simp add: crawl_to_pdfs_def site_fields allowed_home allowed_def start_requests_def
        rq0_def files2_def files1_def)
qed




text \<open>
  C1. With depth 0 the crawl passes \<open>DEPTH_LIMIT = 0\<close>, which imposes no limit: the page that
  the home page links to, one hop away, is fetched and gets a document, so the run writes
  two documents where the claim, and the module's own description of depth 0 (only the
  base page), say one.
\<close>

theorem depth_zero_crawls_on:
  "crawl_to_pdfs site ''https://example.com/'' 0 ''/out'' []
     = Some (Inr True,
         [(''/out/example-com-b-43cc12e82d.pdf'',
           PdfFile [Heading1 ''(No title)'', Paragraph ''https://example.com/b'', Spacer 15,
                    Spacer 10, Heading2 ''Page Text'', Paragraph ''More'', Spacer 5]),
          (''/out/example-com-182ccedb33.pdf'',
           PdfFile [Heading1 ''Home'', Paragraph ''https://example.com/'', Spacer 15, Spacer 10,
                    Heading2 ''Page Text'', Paragraph ''Welcome'', Spacer 5])])
   \<and> listdir ''/out'' [(''/out/example-com-b-43cc12e82d.pdf'', Directory),
                        (''/out/example-com-182ccedb33.pdf'', Directory)]
       = [''example-com-b-43cc12e82d.pdf'', ''example-com-182ccedb33.pdf'']"
proof -
  have "listdir ''/out'' [(''/out/example-com-b-43cc12e82d.pdf'', Directory),
                        (''/out/example-com-182ccedb33.pdf'', Directory)]
       = [''example-com-b-43cc12e82d.pdf'', ''example-com-182ccedb33.pdf'']"
    by code_simp
  then show ?thesis
    by (simp add: crawl_site fs_put_def path_join_def)
qed

text \<open>
  C7. Whenever the crawl ends, the endpoint answers in one of three ways: the crawl raised,
  and the answer is the error 500 with \<open>Crawl failed:\<close> and the text of the exception; the
  crawl returned and the output directory holds no PDF, and the answer is the error 504 that
  nothing could be saved; the crawl returned and there is at least one PDF, and the answer is
  the archive, written beside the output directory, whose members are exactly the PDFs of
  the output directory.
\<close>

theorem scrape_outcomes:
  assumes "crawl_to_pdfs E (cr_url req) (cr_depth req) (path_join tmp ''pdfs'')
             (makedirs (path_join tmp ''pdfs'') (fs_put tmp Directory files)) = Some (res, files3)"
  shows "case res of
           Inl e \<Rightarrow>
             scrape E tmp req files
               = Some (HTTPException 500 (''Crawl failed: '' @ str_of_error e), files3)
         | Inr ok \<Rightarrow>
             if filter (\<lambda>f. endswith (py_lower f) ''.pdf'') (listdir (path_join tmp ''pdfs'') files3) = []
             then scrape E tmp req files
                    = Some (HTTPException 504
                        ''Fetch timed out or was blocked before any page could be saved.'', files3)
             else \<exists>members.
                    scrape E tmp req files
                      = Some (FileResponse (path_join tmp ''result.zip'') ''application/zip''
                                ''scraped_pdfs.zip'',
                              fs_put (path_join tmp ''result.zip'') (ZipFile members) files3)
                    \<and> map fst members
                        = filter (\<lambda>f. endswith (py_lower f) ''.pdf'')
                            (listdir (path_join tmp ''pdfs'') files3)"
proof (cases res)
  case (Inl e)
  with assms show ?thesis by (simp add: scrape_def Let_def)
next
  case (Inr ok)
  define pdf_files where
    "pdf_files = filter (\<lambda>f. endswith (py_lower f) ''.pdf'') (listdir (path_join tmp ''pdfs'') files3)"
  show ?thesis
  proof (cases "pdf_files = []")
    case True
    with assms Inr show ?thesis by (simp add: scrape_def Let_def pdf_files_def)
  next
    case False
    have "\<forall>name \<in> set pdf_files. fs_lookup (path_join (path_join tmp ''pdfs'') name) files3 \<noteq> None"
      by (auto simp: pdf_files_def dest: listdir_exists)
    from zip_members[OF this]
    have m: "map fst (List.map_filter
           (\<lambda>name. map_option (\<lambda>n. (name, n))
              (fs_lookup (path_join (path_join tmp ''pdfs'') name) files3)) pdf_files) = pdf_files" .
    have "scrape E tmp req files
        = Some (FileResponse (path_join tmp ''result.zip'') ''application/zip'' ''scraped_pdfs.zip'',
            fs_put (path_join tmp ''result.zip'')
              (ZipFile (List.map_filter
                 (\<lambda>name. map_option (\<lambda>n. (name, n))
                    (fs_lookup (path_join (path_join tmp ''pdfs'') name) files3)) pdf_files))
              files3)"
      using False assms Inr by (simp add: scrape_def Let_def pdf_files_def[symmetric])
    with m have "\<exists>members.
        scrape E tmp req files
          = Some (FileResponse (path_join tmp ''result.zip'') ''application/zip''
                    ''scraped_pdfs.zip'',
                  fs_put (path_join tmp ''result.zip'') (ZipFile members) files3)
        \<and> map fst members = pdf_files"
      by blast
    with False Inr show ?thesis by (simp add: pdf_files_def[symmetric])
  qed
qed

lemma listdir_site:
  "filter (\<lambda>f. endswith (py_lower f) ''.pdf'')
     (listdir ''/tmp/scrape_pdfs_1/pdfs''
        [(''/tmp/scrape_pdfs_1/pdfs/example-com-b-43cc12e82d.pdf'', Directory),
         (''/tmp/scrape_pdfs_1/pdfs/example-com-182ccedb33.pdf'', Directory),
         (''/tmp/scrape_pdfs_1/pdfs'', Directory), (''/tmp/scrape_pdfs_1'', Directory)])
   = [''example-com-b-43cc12e82d.pdf'', ''example-com-182ccedb33.pdf'']"
  by code_simp

lemma listdir_names: "listdir d (map (\<lambda>e. (fst e, n)) files) = listdir d files"
  by (induction files) (auto simp: listdir_def List.map_filter_simps split: option.splits)

lemma listdir_site_files:
  "filter (\<lambda>f. endswith (py_lower f) ''.pdf'')
     (listdir ''/tmp/scrape_pdfs_1/pdfs''
        [(''/tmp/scrape_pdfs_1/pdfs/example-com-b-43cc12e82d.pdf'', a),
         (''/tmp/scrape_pdfs_1/pdfs/example-com-182ccedb33.pdf'', b),
         (''/tmp/scrape_pdfs_1/pdfs'', Directory), (''/tmp/scrape_pdfs_1'', Directory)])
   = [''example-com-b-43cc12e82d.pdf'', ''example-com-182ccedb33.pdf'']"
  using listdir_names[of "''/tmp/scrape_pdfs_1/pdfs''" Directory
      "[(''/tmp/scrape_pdfs_1/pdfs/example-com-b-43cc12e82d.pdf'', a),
         (''/tmp/scrape_pdfs_1/pdfs/example-com-182ccedb33.pdf'', b),
         (''/tmp/scrape_pdfs_1/pdfs'', Directory), (''/tmp/scrape_pdfs_1'', Directory)]"]
    listdir_site
  by simp

lemma crawl_site_tmp:
  "crawl_to_pdfs site ''https://example.com/'' 1 (path_join ''/tmp/scrape_pdfs_1'' ''pdfs'')
     (makedirs (path_join ''/tmp/scrape_pdfs_1'' ''pdfs'') (fs_put ''/tmp/scrape_pdfs_1'' Directory []))
   = Some (Inr True,
        [(''/tmp/scrape_pdfs_1/pdfs/example-com-b-43cc12e82d.pdf'',
           PdfFile [Heading1 ''(No title)'', Paragraph ''https://example.com/b'', Spacer 15,
                    Spacer 10, Heading2 ''Page Text'', Paragraph ''More'', Spacer 5]),
         (''/tmp/scrape_pdfs_1/pdfs/example-com-182ccedb33.pdf'',
           PdfFile [Heading1 ''Home'', Paragraph ''https://example.com/'', Spacer 15, Spacer 10,
                    Heading2 ''Page Text'', Paragraph ''Welcome'', Spacer 5]),
         (''/tmp/scrape_pdfs_1/pdfs'', Directory), (''/tmp/scrape_pdfs_1'', Directory)])"
  by (simp add: crawl_site fs_put_def path_join_def makedirs_def fs_lookup_def)

theorem scrape_outcomes_witness:
  "\<exists>members.
      scrape site ''/tmp/scrape_pdfs_1'' \<lparr>cr_url = ''https://example.com/'', cr_depth = 1\<rparr> []
        = Some (FileResponse ''/tmp/scrape_pdfs_1/result.zip'' ''application/zip''
                  ''scraped_pdfs.zip'',
                fs_put ''/tmp/scrape_pdfs_1/result.zip'' (ZipFile members)
        [(''/tmp/scrape_pdfs_1/pdfs/example-com-b-43cc12e82d.pdf'',
           PdfFile [Heading1 ''(No title)'', Paragraph ''https://example.com/b'', Spacer 15,
                    Spacer 10, Heading2 ''Page Text'', Paragraph ''More'', Spacer 5]),
         (''/tmp/scrape_pdfs_1/pdfs/example-com-182ccedb33.pdf'',
           PdfFile [Heading1 ''Home'', Paragraph ''https://example.com/'', Spacer 15, Spacer 10,
                    Heading2 ''Page Text'', Paragraph ''Welcome'', Spacer 5]),
         (''/tmp/scrape_pdfs_1/pdfs'', Directory), (''/tmp/scrape_pdfs_1'', Directory)])
      \<and> map fst members = [''example-com-b-43cc12e82d.pdf'', ''example-com-182ccedb33.pdf'']"
proof -
  have c: "crawl_to_pdfs site (cr_url \<lparr>cr_url = ''https://example.com/'', cr_depth = 1\<rparr>)
     (cr_depth \<lparr>cr_url = ''https://example.com/'', cr_depth = 1\<rparr>)
     (path_join ''/tmp/scrape_pdfs_1'' ''pdfs'')
     (makedirs (path_join ''/tmp/scrape_pdfs_1'' ''pdfs'') (fs_put ''/tmp/scrape_pdfs_1'' Directory []))
   = Some (Inr True,
        [(''/tmp/scrape_pdfs_1/pdfs/example-com-b-43cc12e82d.pdf'',
           PdfFile [Heading1 ''(No title)'', Paragraph ''https://example.com/b'', Spacer 15,
                    Spacer 10, Heading2 ''Page Text'', Paragraph ''More'', Spacer 5]),
         (''/tmp/scrape_pdfs_1/pdfs/example-com-182ccedb33.pdf'',
           PdfFile [Heading1 ''Home'', Paragraph ''https://example.com/'', Spacer 15, Spacer 10,
                    Heading2 ''Page Text'', Paragraph ''Welcome'', Spacer 5]),
         (''/tmp/scrape_pdfs_1/pdfs'', Directory), (''/tmp/scrape_pdfs_1'', Directory)])"
    unfolding crawl_request.select_convs by (rule crawl_site_tmp)
  have p: "path_join ''/tmp/scrape_pdfs_1'' ''pdfs'' = ''/tmp/scrape_pdfs_1/pdfs''"
    "path_join ''/tmp/scrape_pdfs_1'' ''result.zip'' = ''/tmp/scrape_pdfs_1/result.zip''"
    by (simp_all add: path_join_def)
  from scrape_outcomes[OF c] show ?thesis
    unfolding p sum.case listdir_site_files by simp
qed




end
